theory Spec2Isabelle
  imports Main "HOL-Library.Word"
begin

unbundle bit_operations_syntax

section \<open>The overlap store file of canu (src/stores/ovStoreFile.C)\<close>

text \<open>
  The embedding follows \<^verbatim>\<open>ovFile\<close> of \<^verbatim>\<open>src/stores/ovStoreFile.C\<close> and the inline
  members of \<^verbatim>\<open>bzipBuffer\<close>.  It is the build without \<^verbatim>\<open>SNAPPY\<close>: the branches
  under \<^verbatim>\<open>#ifdef SNAPPY\<close> call the external snappy library and are compiled out.
  The underlying file is a sequence of 32-bit words (every transfer of the code is in
  units of \<^verbatim>\<open>sizeof(uint32)\<close>); the file position is kept in bytes, as \<^verbatim>\<open>fseek\<close> has it.
\<close>

subsection \<open>Build variant and record layout\<close>

type_synonym uint32 = "32 word"
type_synonym uint64 = "64 word"

text \<open>
  Modelled from the spec: the macro \<^verbatim>\<open>ovOverlapNWORDS\<close> and the type \<^verbatim>\<open>ovOverlapDAT\<close>
  are declared in headers that are not part of the sources.  The payload is 5 words of
  32 bits, 3 words of 64 bits, or 8 words of 32 bits; exactly one variant is active
  per build.
\<close>

datatype ovOverlapNWORDS = NWORDS5 | NWORDS3 | NWORDS8

datatype ovOverlapDAT =
    DAT5 uint32 uint32 uint32 uint32 uint32
  | DAT3 uint64 uint64 uint64
  | DAT8 uint32 uint32 uint32 uint32 uint32 uint32 uint32 uint32

fun dat_variant :: "ovOverlapDAT \<Rightarrow> ovOverlapNWORDS" where
  "dat_variant (DAT5 _ _ _ _ _) = NWORDS5"
| "dat_variant (DAT3 _ _ _) = NWORDS3"
| "dat_variant (DAT8 _ _ _ _ _ _ _ _) = NWORDS8"

text \<open>\<^verbatim>\<open>sizeof(ovOverlapDAT)\<close>, in bytes.\<close>

fun sizeof_ovOverlapDAT :: "ovOverlapNWORDS \<Rightarrow> nat" where
  "sizeof_ovOverlapDAT NWORDS5 = 20"
| "sizeof_ovOverlapDAT NWORDS3 = 24"
| "sizeof_ovOverlapDAT NWORDS8 = 32"

text \<open>The number of 32-bit words the payload takes in the buffer (the assignments
  under each \<^verbatim>\<open>#if\<close> branch of \<^verbatim>\<open>writeOverlap\<close>).\<close>

fun wire_words :: "ovOverlapNWORDS \<Rightarrow> nat" where
  "wire_words NWORDS5 = 5"
| "wire_words NWORDS3 = 6"
| "wire_words NWORDS8 = 8"

record ovOverlap =
  a_iid :: uint32
  b_iid :: uint32
  dat :: ovOverlapDAT

text \<open>Modelled from the spec: the enumeration \<^verbatim>\<open>ovFileType\<close> is declared in a header
  that is not part of the sources; the constructor's last branch "catches two cases,
  one with counts and one without counts".\<close>

datatype ovFileType =
  ovFileNormal | ovFileNormalWrite | ovFileFull | ovFileFullWrite | ovFileFullWriteNoCounts

text \<open>The ways a call can fail to return normally.\<close>

datatype abort =
    AssertFailed    \<comment> \<open>an \<^verbatim>\<open>assert\<close> fails\<close>
  | Exit1           \<comment> \<open>\<^verbatim>\<open>exit(1)\<close> after a diagnostic\<close>
  | OutOfBounds     \<comment> \<open>an array is indexed at or beyond its allocated size\<close>
  | NeverReturns    \<comment> \<open>a loop does not end\<close>

subsection \<open>The handle\<close>

record ovFile =
  bufferLen :: nat
  bufferPos :: nat
  bufferMax :: nat
  buffer :: "uint32 list"
  olapsPerReadAlloc :: uint32
  olapsPerReadLast :: uint32
  olapsPerRead :: "uint32 list option"
  isOutput :: bool
  isSeekable :: bool
  isNormal :: bool
  file_words :: "uint32 list"
  file_pos :: nat

text \<open>Lines 61-69: the local \<^verbatim>\<open>lcm\<close> and the capacity \<^verbatim>\<open>_bufferMax\<close>.  The product and
  the quotient are below \<open>2 ^ 32\<close>, so no \<^verbatim>\<open>uint32\<close> operation wraps.\<close>

definition ctor_lcm :: "ovOverlapNWORDS \<Rightarrow> nat" where
  "ctor_lcm nw = (4 * 1 + sizeof_ovOverlapDAT nw) * (4 * 2 + sizeof_ovOverlapDAT nw)"

definition ctor_bufferSize :: "uint32 \<Rightarrow> uint32" where
  "ctor_bufferSize bufferSize = (if bufferSize < 16 * 1024 then 16 * 1024 else bufferSize)"

definition ctor_bufferMax :: "ovOverlapNWORDS \<Rightarrow> uint32 \<Rightarrow> nat" where
  "ctor_bufferMax nw bufferSize =
     (unat (ctor_bufferSize bufferSize) div (ctor_lcm nw * 4)) * ctor_lcm nw"

text \<open>The constructor.  \<open>contents\<close> and \<open>compressed\<close> describe the file found under the
  name when it is opened for reading (its words after decompression, and what
  \<^verbatim>\<open>isCompressed()\<close> reports); a file opened for writing starts empty.  The name and
  the prefix derived from it say where the file and its counts file are, and are left
  out; opening a file is taken to succeed.\<close>

definition ovFile_ctor ::
  "ovOverlapNWORDS \<Rightarrow> uint32 list \<Rightarrow> bool \<Rightarrow> ovFileType \<Rightarrow> uint32 \<Rightarrow> ovFile" where
  "ovFile_ctor nw contents compressed type bufferSize =
     \<lparr> bufferLen = 0,
       bufferPos = ctor_bufferMax nw bufferSize,
       bufferMax = ctor_bufferMax nw bufferSize,
       buffer = replicate (ctor_bufferMax nw bufferSize) 0,
       olapsPerReadAlloc = (if type = ovFileFullWrite then 128 * 1024 else 0),
       olapsPerReadLast = 0,
       olapsPerRead =
         (if type = ovFileFullWrite then Some (replicate (128 * 1024) 0) else None),
       isOutput = (type \<noteq> ovFileNormal \<and> type \<noteq> ovFileFull),
       isSeekable = ((type = ovFileNormal \<or> type = ovFileFull) \<and> \<not> compressed),
       isNormal = (type = ovFileNormal \<or> type = ovFileNormalWrite),
       file_words = (if type = ovFileNormal \<or> type = ovFileFull then contents else []),
       file_pos = 0 \<rparr>"

subsection \<open>The decompressing byte stream (bzipBuffer)\<close>

record bzipBuffer =
  filePos :: int
  eof_flag :: bool
  bzip2outPos :: uint32
  avail_out :: uint32
  bzip2out :: "8 word list"

definition bz_eof :: "bzipBuffer \<Rightarrow> bool" where
  "bz_eof b = eof_flag b"

definition bz_tell :: "bzipBuffer \<Rightarrow> int" where
  "bz_tell b = filePos b"

text \<open>\<^verbatim>\<open>bzipBuffer::next\<close>.  \<^verbatim>\<open>fillBuffer\<close> is defined outside the sources and is a
  parameter.\<close>

definition bz_next :: "(bzipBuffer \<Rightarrow> bzipBuffer) \<Rightarrow> bzipBuffer \<Rightarrow> bool \<times> bzipBuffer" where
  "bz_next fillBuffer b =
     (if eof_flag b then (True, b)
      else
        let b1 = b\<lparr>bzip2outPos := bzip2outPos b + 1, filePos := filePos b + 1\<rparr>;
            b2 = (if bzip2outPos b1 \<ge> avail_out b1 then fillBuffer b1 else b1)
        in (eof_flag b2, b2))"

fun bz_next_times :: "(bzipBuffer \<Rightarrow> bzipBuffer) \<Rightarrow> nat \<Rightarrow> bzipBuffer \<Rightarrow> bool list \<times> bzipBuffer" where
  "bz_next_times fillBuffer 0 b = ([], b)"
| "bz_next_times fillBuffer (Suc n) b =
     (let (r, b1) = bz_next fillBuffer b;
          (rs, b2) = bz_next_times fillBuffer n b1
      in (r # rs, b2))"

subsection \<open>The record codec\<close>

text \<open>The payload words as \<^verbatim>\<open>writeOverlap\<close> stores them: a direct copy for the 5- and
  8-word variants; for the 3-word variant each 64-bit word as its high half
  \<^verbatim>\<open>(d >> 32) & 0xffffffff\<close> and then its low half \<^verbatim>\<open>(d >> 0) & 0xffffffff\<close>,
  each truncated to \<^verbatim>\<open>uint32\<close> by the assignment.\<close>

fun pack_dat :: "ovOverlapDAT \<Rightarrow> uint32 list" where
  "pack_dat (DAT5 d0 d1 d2 d3 d4) = [d0, d1, d2, d3, d4]"
| "pack_dat (DAT3 d0 d1 d2) =
     [ucast (drop_bit 32 d0 AND 0xffffffff), ucast (drop_bit 0 d0 AND 0xffffffff),
      ucast (drop_bit 32 d1 AND 0xffffffff), ucast (drop_bit 0 d1 AND 0xffffffff),
      ucast (drop_bit 32 d2 AND 0xffffffff), ucast (drop_bit 0 d2 AND 0xffffffff)]"
| "pack_dat (DAT8 d0 d1 d2 d3 d4 d5 d6 d7) = [d0, d1, d2, d3, d4, d5, d6, d7]"

text \<open>The payload as \<^verbatim>\<open>readOverlap\<close> rebuilds it from consecutive buffer words: for
  the 3-word variant \<^verbatim>\<open>d = w0; d <<= 32; d |= w1\<close>.\<close>

fun unpack_dat :: "ovOverlapNWORDS \<Rightarrow> uint32 list \<Rightarrow> ovOverlapDAT" where
  "unpack_dat NWORDS5 ws = DAT5 (ws ! 0) (ws ! 1) (ws ! 2) (ws ! 3) (ws ! 4)"
| "unpack_dat NWORDS3 ws =
     DAT3 (push_bit 32 (ucast (ws ! 0)) OR ucast (ws ! 1))
          (push_bit 32 (ucast (ws ! 2)) OR ucast (ws ! 3))
          (push_bit 32 (ucast (ws ! 4)) OR ucast (ws ! 5))"
| "unpack_dat NWORDS8 ws =
     DAT8 (ws ! 0) (ws ! 1) (ws ! 2) (ws ! 3) (ws ! 4) (ws ! 5) (ws ! 6) (ws ! 7)"

text \<open>The words of one record in the order the code stores them: \<^verbatim>\<open>a_iid\<close> unless the
  handle is of the normal format, \<^verbatim>\<open>b_iid\<close>, the payload.\<close>

definition record_words :: "bool \<Rightarrow> ovOverlap \<Rightarrow> uint32 list" where
  "record_words normal overlap =
     (if normal then [] else [a_iid overlap]) @ [b_iid overlap] @ pack_dat (dat overlap)"

text \<open>The number of buffer words \<^verbatim>\<open>readOverlap\<close> consumes for one record.\<close>

definition record_width :: "ovOverlapNWORDS \<Rightarrow> bool \<Rightarrow> nat" where
  "record_width nw normal = (if normal then 1 else 2) + wire_words nw"

text \<open>The assignments of \<^verbatim>\<open>readOverlap\<close> to the caller's record, given the words read
  from the buffer: \<^verbatim>\<open>a_iid\<close> is assigned only when the handle is not of the normal
  format.\<close>

definition store_fields :: "ovOverlapNWORDS \<Rightarrow> bool \<Rightarrow> ovOverlap \<Rightarrow> uint32 list \<Rightarrow> ovOverlap" where
  "store_fields nw normal overlap ws =
     (if normal
      then overlap\<lparr>b_iid := ws ! 0, dat := unpack_dat nw (drop 1 ws)\<rparr>
      else overlap\<lparr>a_iid := ws ! 0, b_iid := ws ! 1, dat := unpack_dat nw (drop 2 ws)\<rparr>)"

subsection \<open>Buffer accesses\<close>

text \<open>\<^verbatim>\<open>_buffer[_bufferLen++] = v\<close>.  The array has \<^verbatim>\<open>_bufferMax\<close> elements; a store
  beyond it is undefined in C++ and is the outcome \<open>OutOfBounds\<close> here.\<close>

definition buffer_put :: "uint32 \<Rightarrow> ovFile \<Rightarrow> abort + ovFile" where
  "buffer_put v f =
     (if bufferLen f < length (buffer f)
      then Inr (f\<lparr>buffer := (buffer f)[bufferLen f := v], bufferLen := bufferLen f + 1\<rparr>)
      else Inl OutOfBounds)"

fun buffer_puts :: "uint32 list \<Rightarrow> ovFile \<Rightarrow> abort + ovFile" where
  "buffer_puts [] f = Inr f"
| "buffer_puts (v # vs) f =
     (case buffer_put v f of Inl e \<Rightarrow> Inl e | Inr f1 \<Rightarrow> buffer_puts vs f1)"

text \<open>\<^verbatim>\<open>_buffer[_bufferPos++]\<close>, and \<open>n\<close> of them in a row.\<close>

definition buffer_get :: "ovFile \<Rightarrow> abort + (uint32 \<times> ovFile)" where
  "buffer_get f =
     (if bufferPos f < length (buffer f)
      then Inr (buffer f ! bufferPos f, f\<lparr>bufferPos := bufferPos f + 1\<rparr>)
      else Inl OutOfBounds)"

fun buffer_gets :: "nat \<Rightarrow> ovFile \<Rightarrow> abort + (uint32 list \<times> ovFile)" where
  "buffer_gets 0 f = Inr ([], f)"
| "buffer_gets (Suc n) f =
     (case buffer_get f of
        Inl e \<Rightarrow> Inl e
      | Inr (w, f1) \<Rightarrow>
          (case buffer_gets n f1 of Inl e \<Rightarrow> Inl e | Inr (ws, f2) \<Rightarrow> Inr (w # ws, f2)))"

subsection \<open>The count index\<close>

text \<open>The loop \<^verbatim>\<open>while (newmax <= newlast) newmax += newmax / 4\<close> on \<^verbatim>\<open>uint32\<close>.  The
  addition wraps, and the loop need not end (it cannot when \<open>newlast\<close> is the largest
  \<^verbatim>\<open>uint32\<close>); not returning is \<open>None\<close>.\<close>

partial_function (option) grow_newmax :: "uint32 \<Rightarrow> uint32 \<Rightarrow> uint32 option" where
  "grow_newmax newmax newlast =
     (if newmax \<le> newlast then grow_newmax (newmax + newmax div 4) newlast
      else Some newmax)"

text \<open>Modelled from the spec: \<^verbatim>\<open>resizeArray\<close> is defined outside the sources.  Growth
  happens only when the requested size exceeds the current one; it preserves the first
  \<open>arrayLen\<close> entries (the existing counts) and zero-fills the new slots.  It returns
  the array and the updated \<^verbatim>\<open>arrayMax\<close>.\<close>

definition resizeArray :: "uint32 list \<Rightarrow> nat \<Rightarrow> uint32 \<Rightarrow> uint32 \<Rightarrow> uint32 list \<times> uint32" where
  "resizeArray array arrayLen arrayMax newMax =
     (if newMax \<le> arrayMax then (array, arrayMax)
      else (take arrayLen array @ replicate (unat newMax - arrayLen) 0, newMax))"

text \<open>\<^verbatim>\<open>_olapsPerRead[i]++\<close>, with the bound of the allocation checked.\<close>

definition count_incr :: "uint32 \<Rightarrow> uint32 list \<Rightarrow> abort + uint32 list" where
  "count_incr i arr =
     (if unat i < length arr then Inr (arr[unat i := arr ! unat i + 1])
      else Inl OutOfBounds)"

definition count_pair :: "ovOverlap \<Rightarrow> ovFile \<Rightarrow> abort + ovFile" where
  "count_pair overlap f =
     (case olapsPerRead f of
        None \<Rightarrow> Inr f
      | Some arr \<Rightarrow>
          (case count_incr (a_iid overlap) arr of
             Inl e \<Rightarrow> Inl e
           | Inr arr1 \<Rightarrow>
               (case count_incr (b_iid overlap) arr1 of
                  Inl e \<Rightarrow> Inl e
                | Inr arr2 \<Rightarrow> Inr (f\<lparr>olapsPerRead := Some arr2\<rparr>))))"

subsection \<open>Writing\<close>

text \<open>\<^verbatim>\<open>ovFile::writeBuffer\<close>; \<^verbatim>\<open>AS_UTL_safeWrite\<close> appends the filled part of the buffer
  to the file.\<close>

definition writeBuffer :: "bool \<Rightarrow> ovFile \<Rightarrow> ovFile" where
  "writeBuffer force f =
     (if \<not> isOutput f then f
      else if \<not> force \<and> bufferLen f < bufferMax f then f
      else if bufferLen f = 0 then f
      else f\<lparr>file_words := file_words f @ take (bufferLen f) (buffer f), bufferLen := 0\<rparr>)"

text \<open>Lines 241-257 of \<^verbatim>\<open>writeOverlap\<close>: grow the count index, count both identifiers,
  record the largest identifier.\<close>

definition writeOverlap_index :: "ovOverlap \<Rightarrow> ovFile \<Rightarrow> abort + ovFile" where
  "writeOverlap_index overlap f =
     (case olapsPerRead f of
        None \<Rightarrow> Inr f
      | Some arr \<Rightarrow>
          (let newlast = max (max (olapsPerReadLast f) (a_iid overlap)) (b_iid overlap)
           in case grow_newmax (olapsPerReadAlloc f) newlast of
                None \<Rightarrow> Inl NeverReturns
              | Some newmax \<Rightarrow>
                  (let (arr1, alloc1) =
                         resizeArray arr (unat (olapsPerReadLast f + 1)) (olapsPerReadAlloc f) newmax
                   in case count_pair overlap (f\<lparr>olapsPerRead := Some arr1, olapsPerReadAlloc := alloc1\<rparr>) of
                        Inl e \<Rightarrow> Inl e
                      | Inr f1 \<Rightarrow> Inr (f1\<lparr>olapsPerReadLast := newlast\<rparr>))))"

definition writeOverlap :: "ovOverlap \<Rightarrow> ovFile \<Rightarrow> abort + ovFile" where
  "writeOverlap overlap f =
     (if \<not> isOutput f then Inl AssertFailed
      else
        case writeOverlap_index overlap (writeBuffer False f) of
          Inl e \<Rightarrow> Inl e
        | Inr f1 \<Rightarrow>
            (case buffer_puts (record_words (isNormal f1) overlap) f1 of
               Inl e \<Rightarrow> Inl e
             | Inr f2 \<Rightarrow> if bufferLen f2 \<le> bufferMax f2 then Inr f2 else Inl AssertFailed))"

text \<open>Lines 307-313 of \<^verbatim>\<open>writeOverlaps\<close>: one pass over the batch for the new size
  and the new largest identifier.\<close>

fun batch_newmax :: "ovOverlap list \<Rightarrow> uint32 \<Rightarrow> uint32 \<Rightarrow> (uint32 \<times> uint32) option" where
  "batch_newmax [] newmax newlast = Some (newmax, newlast)"
| "batch_newmax (ov # ovs) newmax newlast =
     (let newlast1 = max (max newlast (a_iid ov)) (b_iid ov)
      in case grow_newmax newmax newlast1 of
           None \<Rightarrow> None
         | Some newmax1 \<Rightarrow> batch_newmax ovs newmax1 newlast1)"

text \<open>Lines 303-318.  The counter \<^verbatim>\<open>oo\<close> is a \<^verbatim>\<open>uint32\<close> compared with the 64-bit
  \<^verbatim>\<open>overlapsLen\<close>: for a batch of \<open>2 ^ 32\<close> records or more the \<^verbatim>\<open>for\<close> loop does
  not end.\<close>

definition writeOverlaps_index :: "ovOverlap list \<Rightarrow> ovFile \<Rightarrow> abort + ovFile" where
  "writeOverlaps_index overlaps f =
     (case olapsPerRead f of
        None \<Rightarrow> Inr f
      | Some arr \<Rightarrow>
          if 2 ^ 32 \<le> length overlaps then Inl NeverReturns
          else
            (case batch_newmax overlaps (olapsPerReadAlloc f) (olapsPerReadLast f) of
               None \<Rightarrow> Inl NeverReturns
             | Some (newmax, newlast) \<Rightarrow>
                 (let (arr1, alloc1) =
                        resizeArray arr (unat (olapsPerReadLast f + 1)) (olapsPerReadAlloc f) newmax
                  in Inr (f\<lparr>olapsPerRead := Some arr1, olapsPerReadAlloc := alloc1,
                            olapsPerReadLast := newlast\<rparr>))))"

text \<open>Lines 322-362: the loop over the batch.\<close>

fun writeOverlaps_loop :: "ovOverlap list \<Rightarrow> ovFile \<Rightarrow> abort + ovFile" where
  "writeOverlaps_loop [] f = Inr f"
| "writeOverlaps_loop (ov # ovs) f =
     (case count_pair ov (writeBuffer False f) of
        Inl e \<Rightarrow> Inl e
      | Inr f1 \<Rightarrow>
          (case buffer_puts (record_words (isNormal f1) ov) f1 of
             Inl e \<Rightarrow> Inl e
           | Inr f2 \<Rightarrow> writeOverlaps_loop ovs f2))"

definition writeOverlaps :: "ovOverlap list \<Rightarrow> ovFile \<Rightarrow> abort + ovFile" where
  "writeOverlaps overlaps f =
     (if \<not> isOutput f then Inl AssertFailed
      else
        case writeOverlaps_index overlaps f of
          Inl e \<Rightarrow> Inl e
        | Inr f1 \<Rightarrow>
            (case writeOverlaps_loop overlaps f1 of
               Inl e \<Rightarrow> Inl e
             | Inr f2 \<Rightarrow> if bufferLen f2 \<le> bufferMax f2 then Inr f2 else Inl AssertFailed))"

subsection \<open>Reading\<close>

text \<open>Modelled from the spec: \<^verbatim>\<open>AS_UTL_safeRead\<close> is defined outside the sources.  It
  reads up to the requested number of words from the file position and returns the
  number actually read, fewer than requested at the end of the file.\<close>

definition AS_UTL_safeRead :: "uint32 list \<Rightarrow> nat \<Rightarrow> nat \<Rightarrow> uint32 list" where
  "AS_UTL_safeRead contents pos nitems = take nitems (drop (pos div 4) contents)"

text \<open>\<^verbatim>\<open>ovFile::readBuffer\<close>: the words read overwrite the front of the buffer.\<close>

definition readBuffer :: "ovFile \<Rightarrow> ovFile" where
  "readBuffer f =
     (if bufferPos f < bufferLen f then f
      else
        let ws = AS_UTL_safeRead (file_words f) (file_pos f) (bufferMax f)
        in f\<lparr>bufferPos := 0,
             buffer := ws @ drop (length ws) (buffer f),
             bufferLen := length ws,
             file_pos := file_pos f + 4 * length ws\<rparr>)"

text \<open>Lines 420-460, shared by \<^verbatim>\<open>readOverlap\<close> and the body of the loop of
  \<^verbatim>\<open>readOverlaps\<close>: \<open>None\<close> for the record is the end of the data.\<close>

definition read_record ::
  "ovOverlapNWORDS \<Rightarrow> ovOverlap \<Rightarrow> ovFile \<Rightarrow> abort + (ovOverlap option \<times> ovFile)" where
  "read_record nw overlap f =
     (let f1 = readBuffer f
      in if bufferLen f1 = 0 then Inr (None, f1)
         else if \<not> bufferPos f1 < bufferLen f1 then Inl AssertFailed
         else
           case buffer_gets (record_width nw (isNormal f1)) f1 of
             Inl e \<Rightarrow> Inl e
           | Inr (ws, f2) \<Rightarrow>
               if bufferPos f2 \<le> bufferLen f2
               then Inr (Some (store_fields nw (isNormal f1) overlap ws), f2)
               else Inl AssertFailed)"

text \<open>\<^verbatim>\<open>ovFile::readOverlap\<close> returns the flag, the caller's record and the handle.\<close>

definition readOverlap ::
  "ovOverlapNWORDS \<Rightarrow> ovOverlap \<Rightarrow> ovFile \<Rightarrow> abort + (bool \<times> ovOverlap \<times> ovFile)" where
  "readOverlap nw overlap f =
     (if isOutput f then Inl AssertFailed
      else
        case read_record nw overlap f of
          Inl e \<Rightarrow> Inl e
        | Inr (None, f1) \<Rightarrow> Inr (False, overlap, f1)
        | Inr (Some overlap1, f1) \<Rightarrow> Inr (True, overlap1, f1))"

text \<open>The loop of \<^verbatim>\<open>readOverlaps\<close> over the slots of the caller's array that are still
  to be filled; it returns the records loaded, in order.\<close>

fun readOverlaps_loop ::
  "ovOverlapNWORDS \<Rightarrow> ovOverlap list \<Rightarrow> ovFile \<Rightarrow> abort + (ovOverlap list \<times> ovFile)" where
  "readOverlaps_loop nw [] f = Inr ([], f)"
| "readOverlaps_loop nw (ov # ovs) f =
     (case read_record nw ov f of
        Inl e \<Rightarrow> Inl e
      | Inr (None, f1) \<Rightarrow> Inr ([], f1)
      | Inr (Some ov1, f1) \<Rightarrow>
          (case readOverlaps_loop nw ovs f1 of
             Inl e \<Rightarrow> Inl e
           | Inr (loaded, f2) \<Rightarrow> Inr (ov1 # loaded, f2)))"

text \<open>\<^verbatim>\<open>ovFile::readOverlaps\<close> returns \<^verbatim>\<open>nLoaded\<close>, the caller's array (its first
  \<^verbatim>\<open>nLoaded\<close> slots overwritten) and the handle.\<close>

definition readOverlaps ::
  "ovOverlapNWORDS \<Rightarrow> ovOverlap list \<Rightarrow> ovFile \<Rightarrow> abort + (nat \<times> ovOverlap list \<times> ovFile)" where
  "readOverlaps nw overlaps f =
     (if isOutput f then Inl AssertFailed
      else
        case readOverlaps_loop nw overlaps f of
          Inl e \<Rightarrow> Inl e
        | Inr (loaded, f1) \<Rightarrow>
            Inr (length loaded, loaded @ drop (length loaded) overlaps, f1))"

text \<open>Modelled from the spec: \<^verbatim>\<open>recordSize()\<close> is declared in a header that is not part
  of the sources; it is the size of one record of the handle's format in bytes.\<close>

definition recordSize :: "ovOverlapNWORDS \<Rightarrow> ovFile \<Rightarrow> nat" where
  "recordSize nw f = 4 * (if isNormal f then 1 else 2) + sizeof_ovOverlapDAT nw"

text \<open>\<^verbatim>\<open>ovFile::seekOverlap\<close>, for a record index that is not negative.\<close>

definition seekOverlap :: "ovOverlapNWORDS \<Rightarrow> nat \<Rightarrow> ovFile \<Rightarrow> abort + ovFile" where
  "seekOverlap nw overlap f =
     (if \<not> isSeekable f then Inl Exit1
      else Inr (f\<lparr>file_pos := overlap * recordSize nw f, bufferPos := bufferLen f\<rparr>))"

subsection \<open>Destruction\<close>

text \<open>\<^verbatim>\<open>ovFile::~ovFile\<close> returns the words of the file and, when the count index
  exists, the words of the counts file: the incremented \<^verbatim>\<open>_olapsPerReadLast\<close>, then that
  many entries of the index.\<close>

definition ovFile_dtor :: "ovFile \<Rightarrow> abort + (uint32 list \<times> uint32 list option)" where
  "ovFile_dtor f =
     (let f1 = writeBuffer True f
      in case olapsPerRead f1 of
           None \<Rightarrow> Inr (file_words f1, None)
         | Some arr \<Rightarrow>
             (let last1 = olapsPerReadLast f1 + 1
              in if unat last1 \<le> length arr
                 then Inr (file_words f1, Some (last1 # take (unat last1) arr))
                 else Inl OutOfBounds))"

subsection \<open>Sequences of calls on one handle\<close>

text \<open>A client's use of a handle: any sequence of calls of the five public members.
  The values the reading calls return are dropped here; the theorems about them state
  them on \<open>readOverlap\<close> and \<open>readOverlaps\<close> directly.\<close>

datatype call =
    WriteOverlap ovOverlap
  | WriteOverlaps "ovOverlap list"
  | ReadOverlap ovOverlap
  | ReadOverlaps "ovOverlap list"
  | SeekOverlap nat

fun do_call :: "ovOverlapNWORDS \<Rightarrow> call \<Rightarrow> ovFile \<Rightarrow> abort + ovFile" where
  "do_call nw (WriteOverlap ov) f = writeOverlap ov f"
| "do_call nw (WriteOverlaps ovs) f = writeOverlaps ovs f"
| "do_call nw (ReadOverlap ov) f =
     (case readOverlap nw ov f of Inl e \<Rightarrow> Inl e | Inr (_, _, f1) \<Rightarrow> Inr f1)"
| "do_call nw (ReadOverlaps ovs) f =
     (case readOverlaps nw ovs f of Inl e \<Rightarrow> Inl e | Inr (_, _, f1) \<Rightarrow> Inr f1)"
| "do_call nw (SeekOverlap k) f = seekOverlap nw k f"

fun do_calls :: "ovOverlapNWORDS \<Rightarrow> call list \<Rightarrow> ovFile \<Rightarrow> abort + ovFile" where
  "do_calls nw [] f = Inr f"
| "do_calls nw (c # cs) f =
     (case do_call nw c f of Inl e \<Rightarrow> Inl e | Inr f1 \<Rightarrow> do_calls nw cs f1)"

fun is_write :: "call \<Rightarrow> bool" where
  "is_write (WriteOverlap _) = True"
| "is_write (WriteOverlaps _) = True"
| "is_write _ = False"

text \<open>The records a call hands to the writer, and those of a sequence of calls in the
  order they are written.\<close>

fun call_records :: "call \<Rightarrow> ovOverlap list" where
  "call_records (WriteOverlap ov) = [ov]"
| "call_records (WriteOverlaps ovs) = ovs"
| "call_records _ = []"

definition records_written :: "call list \<Rightarrow> ovOverlap list" where
  "records_written calls = concat (map call_records calls)"

text \<open>The life of one handle: construction, the calls, destruction.  The result is
  what destruction leaves on disk.\<close>

definition ovFile_session ::
  "ovOverlapNWORDS \<Rightarrow> uint32 list \<Rightarrow> bool \<Rightarrow> ovFileType \<Rightarrow> uint32 \<Rightarrow> call list \<Rightarrow>
   abort + (uint32 list \<times> uint32 list option)" where
  "ovFile_session nw contents compressed type bufferSize calls =
     (case do_calls nw calls (ovFile_ctor nw contents compressed type bufferSize) of
        Inl e \<Rightarrow> Inl e
      | Inr f \<Rightarrow> ovFile_dtor f)"

text \<open>The words of the counts file in the result of a session (none when there is no
  counts file).\<close>

definition counts_file :: "abort + (uint32 list \<times> uint32 list option) \<Rightarrow> uint32 list" where
  "counts_file r = (case r of Inr (_, Some ws) \<Rightarrow> ws | _ \<Rightarrow> [])"

definition is_write_type :: "ovFileType \<Rightarrow> bool" where
  "is_write_type type \<longleftrightarrow> type \<noteq> ovFileNormal \<and> type \<noteq> ovFileFull"

text \<open>The type that reads back what a handle of the given type writes: the same record
  format.\<close>

definition reader_type :: "ovFileType \<Rightarrow> ovFileType" where
  "reader_type type =
     (if type = ovFileNormalWrite \<or> type = ovFileNormal then ovFileNormal else ovFileFull)"

text \<open>Sequential reading that discards records: \<open>k\<close> calls of \<^verbatim>\<open>readOverlap\<close> into a
  scratch record.\<close>

fun discard_overlaps :: "ovOverlapNWORDS \<Rightarrow> nat \<Rightarrow> ovOverlap \<Rightarrow> ovFile \<Rightarrow> abort + ovFile" where
  "discard_overlaps nw 0 tmp f = Inr f"
| "discard_overlaps nw (Suc k) tmp f =
     (case readOverlap nw tmp f of
        Inl e \<Rightarrow> Inl e
      | Inr (_, tmp1, f1) \<Rightarrow> discard_overlaps nw k tmp1 f1)"

subsection \<open>Notions of the specification\<close>

text \<open>The number of times an identifier appears as first or second member of a pair;
  a record whose two members are the identifier counts twice.\<close>

definition appearances :: "uint32 \<Rightarrow> ovOverlap list \<Rightarrow> nat" where
  "appearances i rs =
     length (filter (\<lambda>ov. a_iid ov = i) rs) + length (filter (\<lambda>ov. b_iid ov = i) rs)"

text \<open>The largest identifier seen in a list of records; 0 when there is none, the value
  \<^verbatim>\<open>_olapsPerReadLast\<close> starts from.\<close>

definition largest_id :: "ovOverlap list \<Rightarrow> uint32" where
  "largest_id rs = Max (insert 0 (a_iid ` set rs \<union> b_iid ` set rs))"

definition ids_below :: "nat \<Rightarrow> ovOverlap list \<Rightarrow> bool" where
  "ids_below n rs \<longleftrightarrow> (\<forall>ov \<in> set rs. unat (a_iid ov) \<le> n \<and> unat (b_iid ov) \<le> n)"

text \<open>The words of a list of records in a file of the given format.\<close>

definition encode_records :: "bool \<Rightarrow> ovOverlap list \<Rightarrow> uint32 list" where
  "encode_records normal rs = concat (map (record_words normal) rs)"

text \<open>What a read leaves in the caller's record \<open>d\<close> when the record on disk is \<open>r\<close>:
  the normal format does not hold \<^verbatim>\<open>a_iid\<close>, and the caller's value stays.\<close>

definition merge_record :: "bool \<Rightarrow> ovOverlap \<Rightarrow> ovOverlap \<Rightarrow> ovOverlap" where
  "merge_record normal d r = (if normal then r\<lparr>a_iid := a_iid d\<rparr> else r)"

subsection \<open>Invariants of the handle\<close>

text \<open>The buffer: allocated at its capacity, the capacity a positive multiple of the
  record width of the handle's format, the fill length within it; a writer's fill
  length and a reader's position inside the filled part are whole records.\<close>

definition buffer_ok :: "ovOverlapNWORDS \<Rightarrow> ovFile \<Rightarrow> bool" where
  "buffer_ok nw f \<longleftrightarrow>
     length (buffer f) = bufferMax f \<and> 0 < bufferMax f \<and>
     record_width nw (isNormal f) dvd bufferMax f \<and>
     bufferLen f \<le> bufferMax f \<and>
     (if isOutput f then record_width nw (isNormal f) dvd bufferLen f
      else (bufferPos f < bufferLen f \<longrightarrow> record_width nw (isNormal f) dvd bufferPos f))"

text \<open>The words a writer has produced: those flushed and those still in the buffer.\<close>

definition written :: "ovFile \<Rightarrow> uint32 list" where
  "written f = file_words f @ take (bufferLen f) (buffer f)"

text \<open>The count index holds, at every allocated position, the appearances in \<open>rs\<close>.\<close>

definition counts_exact :: "uint32 list \<Rightarrow> ovOverlap list \<Rightarrow> bool" where
  "counts_exact arr rs \<longleftrightarrow>
     (\<forall>k::uint32. unat k < length arr \<longrightarrow> arr ! unat k = of_nat (appearances k rs))"

definition index_sized :: "ovFile \<Rightarrow> ovOverlap list \<Rightarrow> bool" where
  "index_sized f rs \<longleftrightarrow>
     (case olapsPerRead f of
        None \<Rightarrow> True
      | Some arr \<Rightarrow> length arr = unat (olapsPerReadAlloc f) \<and>
                    olapsPerReadLast f < olapsPerReadAlloc f \<and>
                    4 \<le> unat (olapsPerReadAlloc f) \<and>
                    largest_id rs \<le> olapsPerReadLast f \<and>
                    counts_exact arr rs)"

definition index_counts :: "ovFile \<Rightarrow> ovOverlap list \<Rightarrow> bool" where
  "index_counts f rs \<longleftrightarrow>
     index_sized f rs \<and> (olapsPerRead f \<noteq> None \<longrightarrow> olapsPerReadLast f = largest_id rs)"

text \<open>What no call changes.\<close>

definition same_config :: "ovFile \<Rightarrow> ovFile \<Rightarrow> bool" where
  "same_config f f' \<longleftrightarrow>
     isOutput f' = isOutput f \<and> isNormal f' = isNormal f \<and> isSeekable f' = isSeekable f \<and>
     bufferMax f' = bufferMax f \<and> (olapsPerRead f' = None \<longleftrightarrow> olapsPerRead f = None) \<and>
     (\<not> isOutput f \<longrightarrow> file_words f' = file_words f)"

text \<open>The invariant of a handle that has written the records \<open>rs\<close>.\<close>

definition handle_inv :: "ovOverlapNWORDS \<Rightarrow> ovFile \<Rightarrow> ovOverlap list \<Rightarrow> bool" where
  "handle_inv nw f rs \<longleftrightarrow>
     buffer_ok nw f \<and> index_counts f rs \<and>
     (isOutput f \<longrightarrow> written f = encode_records (isNormal f) rs) \<and>
     (\<not> isOutput f \<longrightarrow> olapsPerRead f = None)"

text \<open>A reader: the words loaded and not yet decoded, the words of the file not yet
  loaded, and the invariant of a reader that has the records \<open>rs\<close> still to deliver.\<close>

definition in_buffer :: "ovFile \<Rightarrow> uint32 list" where
  "in_buffer f = drop (bufferPos f) (take (bufferLen f) (buffer f))"

definition unread :: "ovFile \<Rightarrow> uint32 list" where
  "unread f = drop (file_pos f div 4) (file_words f)"

definition read_inv :: "ovOverlapNWORDS \<Rightarrow> ovFile \<Rightarrow> ovOverlap list \<Rightarrow> bool" where
  "read_inv nw f rs \<longleftrightarrow>
     buffer_ok nw f \<and> \<not> isOutput f \<and>
     record_width nw (isNormal f) dvd length (in_buffer f) \<and>
     in_buffer f @ unread f = encode_records (isNormal f) rs \<and>
     (\<forall>ov \<in> set rs. dat_variant (dat ov) = nw)"

section \<open>Lemmas\<close>

subsection \<open>The constructor\<close>

lemma ctor_bufferSize_ge: "16384 \<le> unat (ctor_bufferSize bs)"
  unfolding ctor_bufferSize_def
  by (simp add: word_less_nat_alt not_less)

lemma ctor_bufferSize_nat: "unat (ctor_bufferSize bs) = max 16384 (unat bs)"
  unfolding ctor_bufferSize_def
  by (simp add: word_less_nat_alt max_def)

lemma ctor_lcm_words: "ctor_lcm nw = 16 * (record_width nw True * record_width nw False)"
  by (cases nw) (simp_all add: ctor_lcm_def record_width_def)

lemma ctor_bufferMax_dvd: "record_width nw True dvd bufferMax (ovFile_ctor nw contents compressed type bufferSize) \<and>
  record_width nw False dvd bufferMax (ovFile_ctor nw contents compressed type bufferSize)"
  by (simp add: ovFile_ctor_def ctor_bufferMax_def ctor_lcm_words)

lemma ctor_bufferMax_pos: "0 < ctor_bufferMax nw bs"
proof -
  have "ctor_lcm nw * 4 \<le> 16384" by (cases nw) (simp_all add: ctor_lcm_def)
  with ctor_bufferSize_ge[of bs] have "ctor_lcm nw * 4 \<le> unat (ctor_bufferSize bs)" by simp
  moreover have "0 < ctor_lcm nw" by (cases nw) (simp_all add: ctor_lcm_def)
  ultimately show ?thesis unfolding ctor_bufferMax_def
    by (simp add: div_greater_zero_iff)
qed

lemma bz_next_times_eof: "eof_flag b \<Longrightarrow> bz_next_times fb n b = (replicate n True, b)"
  by (induction n) (simp_all add: bz_next_def)

subsection \<open>Buffer accesses and the record codec\<close>

lemma buffer_puts_ok:
  "bufferLen f + length ws \<le> length (buffer f) \<Longrightarrow>
   buffer_puts ws f =
     Inr (f\<lparr>buffer := take (bufferLen f) (buffer f) @ ws @ drop (bufferLen f + length ws) (buffer f),
            bufferLen := bufferLen f + length ws\<rparr>)"
proof (induction ws arbitrary: f)
  case Nil
  then show ?case by simp
next
  case (Cons v vs)
  let ?f1 = "f\<lparr>buffer := (buffer f)[bufferLen f := v], bufferLen := bufferLen f + 1\<rparr>"
  from Cons.prems have lt: "bufferLen f < length (buffer f)" by simp
  then have put: "buffer_put v f = Inr ?f1" by (simp add: buffer_put_def)
  from Cons.prems have "bufferLen ?f1 + length vs \<le> length (buffer ?f1)" by simp
  from Cons.IH[OF this] have "buffer_puts vs ?f1 =
     Inr (f\<lparr>buffer := take (bufferLen f + 1) ((buffer f)[bufferLen f := v]) @ vs @
                drop (bufferLen f + 1 + length vs) ((buffer f)[bufferLen f := v]),
            bufferLen := bufferLen f + 1 + length vs\<rparr>)" by simp
  moreover have "take (bufferLen f + 1) ((buffer f)[bufferLen f := v]) = take (bufferLen f) (buffer f) @ [v]"
    using lt by (simp add: take_Suc_conv_app_nth)
  moreover have "drop (bufferLen f + 1 + length vs) ((buffer f)[bufferLen f := v]) =
     drop (bufferLen f + 1 + length vs) (buffer f)" by simp
  ultimately show ?case using put by simp
qed

lemma buffer_gets_ok:
  "bufferPos f + n \<le> length (buffer f) \<Longrightarrow>
   buffer_gets n f = Inr (take n (drop (bufferPos f) (buffer f)), f\<lparr>bufferPos := bufferPos f + n\<rparr>)"
proof (induction n arbitrary: f)
  case 0 then show ?case by simp
next
  case (Suc n)
  let ?f1 = "f\<lparr>bufferPos := bufferPos f + 1\<rparr>"
  from Suc.prems have lt: "bufferPos f < length (buffer f)" by simp
  then have g: "buffer_get f = Inr (buffer f ! bufferPos f, ?f1)" by (simp add: buffer_get_def)
  from Suc.prems have "bufferPos ?f1 + n \<le> length (buffer ?f1)" by simp
  from Suc.IH[OF this] have "buffer_gets n ?f1 =
     Inr (take n (drop (bufferPos f + 1) (buffer f)), f\<lparr>bufferPos := bufferPos f + 1 + n\<rparr>)" by simp
  moreover have "take (Suc n) (drop (bufferPos f) (buffer f)) =
     buffer f ! bufferPos f # take n (drop (bufferPos f + 1) (buffer f))"
    using lt by (simp add: Cons_nth_drop_Suc[symmetric])
  ultimately show ?case using g by simp
qed

lemma length_pack_dat: "length (pack_dat d) = wire_words (dat_variant d)"
  by (cases d) simp_all

lemma length_record_words:
  "length (record_words normal ov) = record_width (dat_variant (dat ov)) normal"
  by (simp add: record_words_def record_width_def length_pack_dat)

lemma low32_mask: "(0xffffffff :: uint64) = mask 32"
  by (simp add: mask_eq_exp_minus_1)

lemma join_halves:
  "push_bit 32 (ucast (ucast (drop_bit 32 d AND 0xffffffff) :: uint32)) OR
   ucast (ucast (drop_bit 0 d AND 0xffffffff) :: uint32) = (d :: uint64)"
  unfolding low32_mask
  by (rule bit_word_eqI) (auto simp add: bit_simps)

lemma unpack_pack: "unpack_dat (dat_variant d) (pack_dat d) = d"
  by (cases d) (simp_all add: join_halves del: drop_bit_0)

lemma store_fields_record_words:
  "store_fields (dat_variant (dat ov)) normal ov0 (record_words normal ov) =
     (if normal then ov\<lparr>a_iid := a_iid ov0\<rparr> else ov)"
  by (simp add: store_fields_def record_words_def unpack_pack)

subsection \<open>Flushing and storing one record\<close>

lemma record_width_pos: "0 < record_width nw normal"
  by (simp add: record_width_def)

lemma dvd_room: "(w::nat) dvd a \<Longrightarrow> w dvd b \<Longrightarrow> a < b \<Longrightarrow> a + w \<le> b"
proof -
  assume "w dvd a" "w dvd b" "a < b"
  then obtain k l where kl: "a = w * k" "b = w * l" by (auto simp: dvd_def)
  with \<open>a < b\<close> have "k < l" by simp
  then have "Suc k \<le> l" by simp
  then have "w * Suc k \<le> w * l" by (rule mult_le_mono2)
  with kl show ?thesis by simp
qed

lemma writeBuffer_False:
  assumes "buffer_ok nw f" "isOutput f"
  shows "buffer_ok nw (writeBuffer False f)"
    and "bufferLen (writeBuffer False f) < bufferMax f"
    and "written (writeBuffer False f) = written f"
    and "\<exists>fw bl. writeBuffer False f = f\<lparr>file_words := fw, bufferLen := bl\<rparr>"
proof -
  show "buffer_ok nw (writeBuffer False f)" using assms
    by (auto simp: buffer_ok_def writeBuffer_def)
  show "bufferLen (writeBuffer False f) < bufferMax f" using assms
    by (auto simp: buffer_ok_def writeBuffer_def)
  show "written (writeBuffer False f) = written f" using assms
    by (auto simp: buffer_ok_def writeBuffer_def written_def)
  show "\<exists>fw bl. writeBuffer False f = f\<lparr>file_words := fw, bufferLen := bl\<rparr>"
  proof (cases "writeBuffer False f = f")
    case True
    have "f = f\<lparr>file_words := file_words f, bufferLen := bufferLen f\<rparr>" by simp
    with True show ?thesis by metis
  next
    case False
    then show ?thesis by (auto simp: writeBuffer_def split: if_splits)
  qed
qed

lemma put_record:
  assumes ok: "buffer_ok nw g" and out: "isOutput g" and room: "bufferLen g < bufferMax g"
    and ty: "dat_variant (dat ov) = nw"
  defines "g' \<equiv> g\<lparr>buffer := take (bufferLen g) (buffer g) @ record_words (isNormal g) ov @
                     drop (bufferLen g + record_width nw (isNormal g)) (buffer g),
                   bufferLen := bufferLen g + record_width nw (isNormal g)\<rparr>"
  shows "buffer_puts (record_words (isNormal g) ov) g = Inr g'"
    and "buffer_ok nw g'" and "written g' = written g @ record_words (isNormal g) ov"
    and "0 < bufferLen g'"
proof -
  let ?w = "record_width nw (isNormal g)"
  have len: "length (record_words (isNormal g) ov) = ?w" using ty by (simp add: length_record_words)
  have fits: "bufferLen g + ?w \<le> bufferMax g"
    using ok out room by (intro dvd_room) (auto simp: buffer_ok_def)
  have lb: "length (buffer g) = bufferMax g" using ok by (simp add: buffer_ok_def)
  show "buffer_puts (record_words (isNormal g) ov) g = Inr g'"
    using buffer_puts_ok[of g "record_words (isNormal g) ov"] fits lb len by (simp add: g'_def)
  show "buffer_ok nw g'" using ok out fits lb len
    by (auto simp: buffer_ok_def g'_def)
  show "written g' = written g @ record_words (isNormal g) ov"
    using fits lb len by (simp add: written_def g'_def)
  show "0 < bufferLen g'" using record_width_pos[of nw "isNormal g"] by (simp add: g'_def)
qed

subsection \<open>The growth loop\<close>

lemma grow_newmax_gt:
  assumes "grow_newmax m l = Some m'"
  shows "l < m'"
  by (rule grow_newmax.raw_induct[where P = "\<lambda>m l m'. l < m'", OF _ assms])
     (auto split: if_splits)

text \<open>The loop cannot end when \<open>newlast\<close> is the largest \<^verbatim>\<open>uint32\<close>.\<close>

lemma grow_newmax_never: "grow_newmax m (- 1) = None"
proof (cases "grow_newmax m (- 1)")
  case None
  then show ?thesis .
next
  case (Some m')
  then have "- 1 < m'" by (rule grow_newmax_gt)
  then show ?thesis by (simp add: not_le[symmetric])
qed

lemma grow_step_nat:
  fixes m l :: uint32
  assumes "m \<le> l" "unat l \<le> 3435973836"
  shows "unat (m + m div 4) = unat m + unat m div 4"
proof -
  have "unat m \<le> unat l" using assms(1) by (simp add: word_le_nat_alt)
  then have "unat m + unat m div 4 < 2 ^ 32" using assms(2) by simp
  moreover have "unat (m div 4) = unat m div 4" by (simp add: unat_div)
  ultimately show ?thesis by (simp add: unat_word_ariths)
qed

lemma grow_newmax_returns:
  assumes "4 \<le> unat m" "unat l \<le> 3435973836"
  shows "\<exists>m'. grow_newmax m l = Some m' \<and> m \<le> m'"
  using assms
proof (induction "Suc (unat l) - unat m" arbitrary: m rule: less_induct)
  case less
  show ?case
  proof (cases "m \<le> l")
    case False
    then show ?thesis by (subst grow_newmax.simps) simp
  next
    case True
    let ?m1 = "m + m div 4"
    have u: "unat ?m1 = unat m + unat m div 4" using True less.prems(2) by (rule grow_step_nat)
    have ml: "unat m \<le> unat l" using True by (simp add: word_le_nat_alt)
    have d: "1 \<le> unat m div 4" using less.prems(1) by simp
    have "Suc (unat l) - unat ?m1 < Suc (unat l) - unat m" using u ml d by simp
    moreover have "4 \<le> unat ?m1" using u less.prems(1) by simp
    ultimately obtain m' where m': "grow_newmax ?m1 l = Some m'" "?m1 \<le> m'"
      using less.hyps[of ?m1] less.prems(2) by blast
    have "m \<le> ?m1" using u by (simp add: word_le_nat_alt)
    with m' True show ?thesis by (subst grow_newmax.simps) auto
  qed
qed

subsection \<open>The count index\<close>

lemma largest_id_ge:
  assumes "ov \<in> set rs"
  shows "a_iid ov \<le> largest_id rs" and "b_iid ov \<le> largest_id rs"
  using assms unfolding largest_id_def by (auto intro!: Max_ge)

lemma largest_id_snoc:
  "largest_id (rs @ [ov]) = max (max (largest_id rs) (a_iid ov)) (b_iid ov)"
proof -
  let ?S = "insert 0 (a_iid ` set rs \<union> b_iid ` set rs)"
  have "insert 0 (a_iid ` set (rs @ [ov]) \<union> b_iid ` set (rs @ [ov])) =
        insert (b_iid ov) (insert (a_iid ov) ?S)" by auto
  then have "largest_id (rs @ [ov]) = Max (insert (b_iid ov) (insert (a_iid ov) ?S))"
    by (simp add: largest_id_def)
  also have "\<dots> = max (b_iid ov) (max (a_iid ov) (Max ?S))"
    by (simp del: Max_insert add: Max_insert[of "insert (a_iid ov) ?S"] Max_insert[of ?S])
  finally show ?thesis by (simp add: largest_id_def max.commute max.left_commute)
qed

lemma largest_id_Nil: "largest_id [] = 0"
  by (simp add: largest_id_def)

lemma appearances_beyond: "largest_id rs < k \<Longrightarrow> appearances k rs = 0"
proof -
  assume lt: "largest_id rs < k"
  have "\<forall>ov \<in> set rs. a_iid ov \<noteq> k \<and> b_iid ov \<noteq> k"
    using largest_id_ge lt by fastforce
  then show ?thesis by (simp add: appearances_def)
qed

lemma count_pair_Some:
  assumes "olapsPerRead f = Some arr" "unat (a_iid ov) < length arr" "unat (b_iid ov) < length arr"
  shows "\<exists>arr'. count_pair ov f = Inr (f\<lparr>olapsPerRead := Some arr'\<rparr>) \<and>
           length arr' = length arr \<and>
           (\<forall>rs. counts_exact arr rs \<longrightarrow> counts_exact arr' (rs @ [ov]))"
proof -
  let ?a = "unat (a_iid ov)" and ?b = "unat (b_iid ov)"
  let ?arr1 = "arr[?a := arr ! ?a + 1]"
  let ?arr2 = "?arr1[?b := ?arr1 ! ?b + 1]"
  have cp: "count_pair ov f = Inr (f\<lparr>olapsPerRead := Some ?arr2\<rparr>)"
    using assms by (simp add: count_pair_def count_incr_def)
  have "counts_exact ?arr2 (rs @ [ov])" if ex: "counts_exact arr rs" for rs
    unfolding counts_exact_def
  proof (intro allI impI)
    fix k :: uint32
    assume "unat k < length ?arr2"
    then have k: "unat k < length arr" by simp
    have "?arr2 ! unat k = arr ! unat k + (if k = a_iid ov then 1 else 0) + (if k = b_iid ov then 1 else 0)"
      using k assms(2,3) by (auto simp: nth_list_update word_unat_eq_iff[symmetric])
    also have "arr ! unat k = of_nat (appearances k rs)" using ex k by (simp add: counts_exact_def)
    finally show "?arr2 ! unat k = of_nat (appearances k (rs @ [ov]))"
      by (auto simp: appearances_def)
  qed
  with cp show ?thesis by (intro exI[of _ ?arr2]) simp
qed

lemma resizeArray_ok:
  assumes len: "length arr = unat alloc" and la: "lst < alloc"
    and nm: "newlast < newmax" and ll: "lst \<le> newlast"
  shows "\<exists>arr1 alloc1. resizeArray arr (unat (lst + 1)) alloc newmax = (arr1, alloc1) \<and>
           length arr1 = unat alloc1 \<and> newlast < alloc1 \<and> alloc \<le> alloc1 \<and>
           (\<forall>rs. counts_exact arr rs \<longrightarrow> largest_id rs \<le> lst \<longrightarrow> counts_exact arr1 rs)"
proof (cases "newmax \<le> alloc")
  case True
  then show ?thesis using assms by (auto simp: resizeArray_def)
next
  case False
  then have gt: "alloc < newmax" by simp
  have l1: "unat (lst + 1) = unat lst + 1"
  proof -
    have "unat lst < unat alloc" using la by (simp add: word_less_nat_alt)
    moreover have "unat alloc < 2 ^ 32" using unsigned_less[of alloc] by simp
    ultimately show ?thesis by (simp add: unat_word_ariths)
  qed
  have l1le: "unat lst + 1 \<le> unat alloc" using la by (simp add: word_less_nat_alt)
  have an: "unat alloc < unat newmax" using gt by (simp add: word_less_nat_alt)
  let ?arr1 = "take (unat (lst + 1)) arr @ replicate (unat newmax - unat (lst + 1)) 0"
  have r: "resizeArray arr (unat (lst + 1)) alloc newmax = (?arr1, newmax)"
    using False by (simp add: resizeArray_def)
  have len1: "length ?arr1 = unat newmax" using l1 l1le an len by simp
  have "counts_exact ?arr1 rs" if ex: "counts_exact arr rs" and lg: "largest_id rs \<le> lst" for rs
    unfolding counts_exact_def
  proof (intro allI impI)
    fix k :: uint32
    assume "unat k < length ?arr1"
    then have kn: "unat k < unat newmax" using len1 by simp
    show "?arr1 ! unat k = of_nat (appearances k rs)"
    proof (cases "k \<le> lst")
      case True
      then have "unat k < unat lst + 1" by (simp add: word_le_nat_alt)
      then have "?arr1 ! unat k = arr ! unat k" and "unat k < length arr"
        using l1 l1le len by (simp_all add: nth_append)
      then show ?thesis using ex by (simp add: counts_exact_def)
    next
      case False
      then have "largest_id rs < k" using lg by simp
      then have z: "appearances k rs = 0" by (rule appearances_beyond)
      from False have "\<not> unat k < unat lst + 1" by (simp add: word_le_nat_alt)
      then have "?arr1 ! unat k = 0" using l1 l1le len kn by (simp add: nth_append)
      with z show ?thesis by simp
    qed
  qed
  with r len1 nm gt show ?thesis by (intro exI[of _ ?arr1] exI[of _ newmax]) simp
qed

subsection \<open>Writing one record\<close>

lemma same_config_refl: "same_config f f"
  by (simp add: same_config_def)

lemma same_config_trans: "same_config f g \<Longrightarrow> same_config g h \<Longrightarrow> same_config f h"
  by (auto simp: same_config_def)

lemma largest_id_bound: "ids_below n rs \<Longrightarrow> unat (largest_id rs) \<le> n"
proof (induction rs rule: rev_induct)
  case Nil then show ?case by (simp add: largest_id_Nil)
next
  case (snoc ov rs)
  then show ?case by (auto simp: largest_id_snoc ids_below_def max_def)
qed

lemma writeOverlap_index_None:
  "olapsPerRead f = None \<Longrightarrow> writeOverlap_index ov f = Inr f"
  by (simp add: writeOverlap_index_def)

lemma writeOverlap_index_Some:
  fixes f :: ovFile and ov :: ovOverlap
  assumes some: "olapsPerRead f \<noteq> None" and ic: "index_counts f rs"
  defines "newlast \<equiv> max (max (olapsPerReadLast f) (a_iid ov)) (b_iid ov)"
  shows "(grow_newmax (olapsPerReadAlloc f) newlast = None \<and>
          writeOverlap_index ov f = Inl NeverReturns) \<or>
         (\<exists>arr alloc. writeOverlap_index ov f =
             Inr (f\<lparr>olapsPerRead := Some arr, olapsPerReadAlloc := alloc,
                    olapsPerReadLast := newlast\<rparr>) \<and>
            index_counts (f\<lparr>olapsPerRead := Some arr, olapsPerReadAlloc := alloc,
                    olapsPerReadLast := newlast\<rparr>) (rs @ [ov]))"
proof -
  from some obtain arr0 where arr0: "olapsPerRead f = Some arr0" by auto
  from ic arr0 have len: "length arr0 = unat (olapsPerReadAlloc f)"
    and la: "olapsPerReadLast f < olapsPerReadAlloc f"
    and four: "4 \<le> unat (olapsPerReadAlloc f)"
    and lg: "olapsPerReadLast f = largest_id rs"
    and ex: "counts_exact arr0 rs"
    by (auto simp: index_counts_def index_sized_def)
  show ?thesis
  proof (cases "grow_newmax (olapsPerReadAlloc f) newlast")
    case None
    then show ?thesis using arr0 by (simp add: writeOverlap_index_def newlast_def)
  next
    case (Some newmax)
    then have nm: "newlast < newmax" by (rule grow_newmax_gt)
    have ll: "olapsPerReadLast f \<le> newlast" by (simp add: newlast_def le_max_iff_disj)
    from resizeArray_ok[OF len la nm ll] obtain arr1 alloc1 where
      r: "resizeArray arr0 (unat (olapsPerReadLast f + 1)) (olapsPerReadAlloc f) newmax = (arr1, alloc1)"
      and len1: "length arr1 = unat alloc1" and nl1: "newlast < alloc1"
      and mono: "olapsPerReadAlloc f \<le> alloc1"
      and ex1: "counts_exact arr1 rs" using ex lg by auto
    let ?g = "f\<lparr>olapsPerRead := Some arr1, olapsPerReadAlloc := alloc1\<rparr>"
    have "a_iid ov \<le> newlast" "b_iid ov \<le> newlast"
      by (simp_all add: newlast_def le_max_iff_disj)
    with nl1 have "a_iid ov < alloc1" "b_iid ov < alloc1" by auto
    then have a: "unat (a_iid ov) < length arr1" and b: "unat (b_iid ov) < length arr1"
      using len1 by (simp_all add: word_less_nat_alt)
    from count_pair_Some[of ?g arr1 ov] a b obtain arr2 where
      cp: "count_pair ov ?g = Inr (?g\<lparr>olapsPerRead := Some arr2\<rparr>)"
      and len2: "length arr2 = length arr1"
      and ex2: "counts_exact arr2 (rs @ [ov])" using ex1 by auto
    have res: "writeOverlap_index ov f =
       Inr (f\<lparr>olapsPerRead := Some arr2, olapsPerReadAlloc := alloc1, olapsPerReadLast := newlast\<rparr>)"
      using arr0 Some r cp by (simp add: writeOverlap_index_def newlast_def)
    have "4 \<le> unat alloc1" using four mono by (simp add: word_le_nat_alt)
    then have "index_counts (f\<lparr>olapsPerRead := Some arr2, olapsPerReadAlloc := alloc1,
        olapsPerReadLast := newlast\<rparr>) (rs @ [ov])"
      using len2 len1 nl1 ex2 lg
      by (simp add: index_counts_def index_sized_def largest_id_snoc newlast_def)
    with res show ?thesis by blast
  qed
qed

lemma writeOverlap_index_returns:
  assumes some: "olapsPerRead f \<noteq> None" and ic: "index_counts f rs"
    and b: "ids_below 3435973836 (rs @ [ov])"
  shows "grow_newmax (olapsPerReadAlloc f) (max (max (olapsPerReadLast f) (a_iid ov)) (b_iid ov)) \<noteq> None"
proof -
  have "olapsPerReadLast f = largest_id rs" "4 \<le> unat (olapsPerReadAlloc f)"
    using some ic by (auto simp: index_counts_def index_sized_def)
  then have "max (max (olapsPerReadLast f) (a_iid ov)) (b_iid ov) = largest_id (rs @ [ov])"
    by (simp add: largest_id_snoc)
  then have "unat (max (max (olapsPerReadLast f) (a_iid ov)) (b_iid ov)) \<le> 3435973836"
    using largest_id_bound[OF b] by simp
  from grow_newmax_returns[OF \<open>4 \<le> unat (olapsPerReadAlloc f)\<close> this] show ?thesis by auto
qed

lemma buffer_ok_index_upd [simp]:
  "buffer_ok nw (f\<lparr>olapsPerRead := a, olapsPerReadAlloc := b, olapsPerReadLast := c\<rparr>) = buffer_ok nw f"
  "buffer_ok nw (f\<lparr>olapsPerRead := a\<rparr>) = buffer_ok nw f"
  by (simp_all add: buffer_ok_def)

lemma written_index_upd [simp]:
  "written (f\<lparr>olapsPerRead := a, olapsPerReadAlloc := b, olapsPerReadLast := c\<rparr>) = written f"
  "written (f\<lparr>olapsPerRead := a\<rparr>) = written f"
  by (simp_all add: written_def)

lemma index_buffer_upd [simp]:
  "index_sized (f\<lparr>file_words := fw, bufferLen := bl\<rparr>) rs = index_sized f rs"
  "index_counts (f\<lparr>file_words := fw, bufferLen := bl\<rparr>) rs = index_counts f rs"
  "index_sized (f\<lparr>buffer := bf, bufferLen := bl\<rparr>) rs = index_sized f rs"
  "index_counts (f\<lparr>buffer := bf, bufferLen := bl\<rparr>) rs = index_counts f rs"
  by (simp_all add: index_counts_def index_sized_def split: option.splits)

lemma encode_records_snoc:
  "encode_records normal (rs @ [ov]) = encode_records normal rs @ record_words normal ov"
  by (simp add: encode_records_def)

lemma writeOverlap_step:
  fixes f :: ovFile and ov :: ovOverlap
  assumes inv: "handle_inv nw f rs" and out: "isOutput f" and ty: "dat_variant (dat ov) = nw"
  defines "g \<equiv> writeBuffer False f"
  shows "(writeOverlap ov f = Inl NeverReturns \<and> olapsPerRead f \<noteq> None \<and>
          grow_newmax (olapsPerReadAlloc f)
            (max (max (olapsPerReadLast f) (a_iid ov)) (b_iid ov)) = None) \<or>
         (\<exists>f'. writeOverlap ov f = Inr f' \<and> handle_inv nw f' (rs @ [ov]) \<and> same_config f f' \<and>
               bufferLen f' = bufferLen g + record_width nw (isNormal f) \<and>
               file_words f' = file_words g)"
proof -
  from inv have bok: "buffer_ok nw f" and ic: "index_counts f rs"
    and wr: "written f = encode_records (isNormal f) rs" using out by (simp_all add: handle_inv_def)
  from writeBuffer_False[OF bok out] obtain fw bl where
    gok: "buffer_ok nw g" and room: "bufferLen g < bufferMax f" and wg: "written g = written f"
    and gf: "g = f\<lparr>file_words := fw, bufferLen := bl\<rparr>" unfolding g_def by blast
  have icg: "index_counts g rs" using ic by (simp add: gf)
  have frame: "isOutput g" "isNormal g = isNormal f" "bufferMax g = bufferMax f"
    "olapsPerRead g = olapsPerRead f" "olapsPerReadAlloc g = olapsPerReadAlloc f"
    "olapsPerReadLast g = olapsPerReadLast f" "isSeekable g = isSeekable f"
    using out by (simp_all add: gf)
  have fin: "\<exists>f'. writeOverlap ov f = Inr f' \<and> handle_inv nw f' (rs @ [ov]) \<and> same_config f f' \<and>
               bufferLen f' = bufferLen g + record_width nw (isNormal f) \<and> file_words f' = file_words g"
    if g1e: "g1 = g\<lparr>olapsPerRead := a, olapsPerReadAlloc := b, olapsPerReadLast := c\<rparr>"
      and wi: "writeOverlap_index ov g = Inr g1" and ic1: "index_counts g1 (rs @ [ov])"
      and an: "a = None \<longleftrightarrow> olapsPerRead g = None" for g1 a b c
  proof -
    have ok1: "buffer_ok nw g1" "isOutput g1" "bufferLen g1 < bufferMax g1" "written g1 = written g"
      "isNormal g1 = isNormal f" "bufferLen g1 = bufferLen g" "file_words g1 = file_words g"
      "bufferMax g1 = bufferMax f" "isSeekable g1 = isSeekable f"
      using gok room frame by (simp_all add: g1e)
    let ?g' = "g1\<lparr>buffer := take (bufferLen g1) (buffer g1) @ record_words (isNormal g1) ov @
                     drop (bufferLen g1 + record_width nw (isNormal g1)) (buffer g1),
                   bufferLen := bufferLen g1 + record_width nw (isNormal g1)\<rparr>"
    from put_record[OF ok1(1) ok1(2) ok1(3) ty]
    have p: "buffer_puts (record_words (isNormal g1) ov) g1 = Inr ?g'"
      and ok': "buffer_ok nw ?g'" and w': "written ?g' = written g1 @ record_words (isNormal g1) ov"
      by simp_all
    have le: "bufferLen ?g' \<le> bufferMax ?g'" using ok' by (simp add: buffer_ok_def)
    have res: "writeOverlap ov f = Inr ?g'"
      using out wi p le unfolding writeOverlap_def g_def[symmetric] by simp
    have "handle_inv nw ?g' (rs @ [ov])"
      unfolding handle_inv_def using ok' w' ic1 ok1 wg wr
      by (simp add: encode_records_snoc)
    moreover have "same_config f ?g'" using ok1 out an frame
      by (simp add: same_config_def g1e)
    ultimately show ?thesis using res ok1 by (intro exI[of _ ?g']) simp
  qed
  show ?thesis
  proof (cases "olapsPerRead g")
    case None
    have "g = g\<lparr>olapsPerRead := olapsPerRead g, olapsPerReadAlloc := olapsPerReadAlloc g,
               olapsPerReadLast := olapsPerReadLast g\<rparr>" by simp
    moreover have "index_counts g (rs @ [ov])" using None by (simp add: index_counts_def index_sized_def)
    ultimately show ?thesis using fin[where ?g1.0 = g and a = "olapsPerRead g" and b = "olapsPerReadAlloc g" and c = "olapsPerReadLast g"]
        writeOverlap_index_None[OF None] by simp
  next
    case (Some arr0)
    then have some: "olapsPerRead g \<noteq> None" by simp
    from writeOverlap_index_Some[OF some icg, of ov]
    show ?thesis
    proof
      assume "grow_newmax (olapsPerReadAlloc g) (max (max (olapsPerReadLast g) (a_iid ov)) (b_iid ov)) = None \<and>
          writeOverlap_index ov g = Inl NeverReturns"
      then show ?thesis using out some frame unfolding writeOverlap_def g_def[symmetric] by simp
    next
      assume "\<exists>arr alloc. writeOverlap_index ov g =
             Inr (g\<lparr>olapsPerRead := Some arr, olapsPerReadAlloc := alloc,
                    olapsPerReadLast := max (max (olapsPerReadLast g) (a_iid ov)) (b_iid ov)\<rparr>) \<and>
            index_counts (g\<lparr>olapsPerRead := Some arr, olapsPerReadAlloc := alloc,
                    olapsPerReadLast := max (max (olapsPerReadLast g) (a_iid ov)) (b_iid ov)\<rparr>) (rs @ [ov])"
      then obtain arr alloc where
        "writeOverlap_index ov g = Inr (g\<lparr>olapsPerRead := Some arr, olapsPerReadAlloc := alloc,
                    olapsPerReadLast := max (max (olapsPerReadLast g) (a_iid ov)) (b_iid ov)\<rparr>)"
        "index_counts (g\<lparr>olapsPerRead := Some arr, olapsPerReadAlloc := alloc,
                    olapsPerReadLast := max (max (olapsPerReadLast g) (a_iid ov)) (b_iid ov)\<rparr>) (rs @ [ov])"
        by blast
      then show ?thesis using some
        by (intro disjI2 fin[where a = "Some arr" and b = alloc and c = "max (max (olapsPerReadLast g) (a_iid ov)) (b_iid ov)"]) auto
    qed
  qed
qed

subsection \<open>Writing a batch\<close>

lemma largest_id_mono: "set rs \<subseteq> set ss \<Longrightarrow> largest_id rs \<le> largest_id ss"
  unfolding largest_id_def by (intro Max_mono) auto

lemma batch_newmax_Some:
  assumes "batch_newmax ovs m l = Some (m', l')" "l < m" "l = largest_id rs"
  shows "l' < m' \<and> l' = largest_id (rs @ ovs)"
  using assms
proof (induction ovs arbitrary: m l rs)
  case Nil
  then show ?case by simp
next
  case (Cons ov ovs)
  let ?l1 = "max (max l (a_iid ov)) (b_iid ov)"
  from Cons.prems(1) obtain m1 where g: "grow_newmax m ?l1 = Some m1"
    and rest: "batch_newmax ovs m1 ?l1 = Some (m', l')"
    by (auto simp: Let_def split: option.splits)
  have "?l1 < m1" using g by (rule grow_newmax_gt)
  moreover have "?l1 = largest_id (rs @ [ov])" using Cons.prems(3) by (simp add: largest_id_snoc)
  ultimately have "l' < m' \<and> l' = largest_id ((rs @ [ov]) @ ovs)"
    using rest by (intro Cons.IH)
  then show ?case by auto
qed

lemma batch_newmax_returns:
  assumes "4 \<le> unat m" "unat l \<le> 3435973836" "ids_below 3435973836 ovs"
  shows "batch_newmax ovs m l \<noteq> None"
  using assms
proof (induction ovs arbitrary: m l)
  case Nil
  then show ?case by simp
next
  case (Cons ov ovs)
  let ?l1 = "max (max l (a_iid ov)) (b_iid ov)"
  have l1: "unat ?l1 \<le> 3435973836" using Cons.prems(2,3) by (auto simp: ids_below_def max_def)
  from grow_newmax_returns[OF Cons.prems(1) l1] obtain m1 where
    g: "grow_newmax m ?l1 = Some m1" and mono: "m \<le> m1" by blast
  have "4 \<le> unat m1" using Cons.prems(1) mono by (simp add: word_le_nat_alt)
  moreover have "ids_below 3435973836 ovs" using Cons.prems(3) by (simp add: ids_below_def)
  ultimately have "batch_newmax ovs m1 ?l1 \<noteq> None" using l1 by (intro Cons.IH)
  with g show ?case by (simp add: Let_def)
qed

lemma writeOverlaps_index_None:
  "olapsPerRead f = None \<Longrightarrow> writeOverlaps_index ovs f = Inr f"
  by (simp add: writeOverlaps_index_def)

lemma writeOverlaps_index_Some:
  fixes f :: ovFile
  assumes some: "olapsPerRead f \<noteq> None" and ic: "index_counts f rs"
  shows "((2 ^ 32 \<le> length ovs \<or> batch_newmax ovs (olapsPerReadAlloc f) (olapsPerReadLast f) = None) \<and>
          writeOverlaps_index ovs f = Inl NeverReturns) \<or>
         (\<exists>arr alloc. writeOverlaps_index ovs f =
             Inr (f\<lparr>olapsPerRead := Some arr, olapsPerReadAlloc := alloc,
                    olapsPerReadLast := largest_id (rs @ ovs)\<rparr>) \<and>
            length arr = unat alloc \<and> largest_id (rs @ ovs) < alloc \<and> 4 \<le> unat alloc \<and>
            counts_exact arr rs)"
proof -
  from some obtain arr0 where arr0: "olapsPerRead f = Some arr0" by auto
  from ic arr0 have len: "length arr0 = unat (olapsPerReadAlloc f)"
    and la: "olapsPerReadLast f < olapsPerReadAlloc f"
    and four: "4 \<le> unat (olapsPerReadAlloc f)"
    and lg: "olapsPerReadLast f = largest_id rs"
    and ex: "counts_exact arr0 rs"
    by (auto simp: index_counts_def index_sized_def)
  show ?thesis
  proof (cases "2 ^ 32 \<le> length ovs \<or> batch_newmax ovs (olapsPerReadAlloc f) (olapsPerReadLast f) = None")
    case True
    then show ?thesis using arr0 by (auto simp: writeOverlaps_index_def)
  next
    case False
    then obtain newmax newlast where
      bn: "batch_newmax ovs (olapsPerReadAlloc f) (olapsPerReadLast f) = Some (newmax, newlast)"
      and short: "\<not> 2 ^ 32 \<le> length ovs" by auto
    from batch_newmax_Some[OF bn la lg] have nm: "newlast < newmax"
      and nl: "newlast = largest_id (rs @ ovs)" by auto
    have ll: "olapsPerReadLast f \<le> newlast" unfolding nl lg by (rule largest_id_mono) simp
    from resizeArray_ok[OF len la nm ll] obtain arr1 alloc1 where
      r: "resizeArray arr0 (unat (olapsPerReadLast f + 1)) (olapsPerReadAlloc f) newmax = (arr1, alloc1)"
      and len1: "length arr1 = unat alloc1" and nl1: "newlast < alloc1"
      and mono: "olapsPerReadAlloc f \<le> alloc1"
      and ex1: "counts_exact arr1 rs" using ex lg by auto
    have res: "writeOverlaps_index ovs f =
       Inr (f\<lparr>olapsPerRead := Some arr1, olapsPerReadAlloc := alloc1, olapsPerReadLast := newlast\<rparr>)"
      using arr0 bn short r by (simp add: writeOverlaps_index_def)
    have "4 \<le> unat alloc1" using four mono by (simp add: word_le_nat_alt)
    with res len1 nl1 ex1 nl show ?thesis by auto
  qed
qed

lemma writeOverlaps_loop_ok:
  assumes "buffer_ok nw f" "isOutput f" "written f = encode_records (isNormal f) rs"
    and "index_sized f rs" and "\<forall>ov \<in> set ovs. dat_variant (dat ov) = nw"
    and "olapsPerRead f \<noteq> None \<longrightarrow> largest_id (rs @ ovs) \<le> olapsPerReadLast f"
  shows "\<exists>f'. writeOverlaps_loop ovs f = Inr f' \<and> buffer_ok nw f' \<and>
           written f' = encode_records (isNormal f) (rs @ ovs) \<and> index_sized f' (rs @ ovs) \<and>
           same_config f f' \<and> olapsPerReadLast f' = olapsPerReadLast f"
  using assms
proof (induction ovs arbitrary: f rs)
  case Nil
  then show ?case by (simp add: same_config_refl)
next
  case (Cons ov ovs)
  define g where "g = writeBuffer False f"
  from writeBuffer_False[OF Cons.prems(1,2)] obtain fw bl where
    gok: "buffer_ok nw g" and room: "bufferLen g < bufferMax f" and wg: "written g = written f"
    and gf: "g = f\<lparr>file_words := fw, bufferLen := bl\<rparr>" unfolding g_def by blast
  have frame: "isOutput g" "isNormal g = isNormal f" "bufferMax g = bufferMax f"
    "olapsPerRead g = olapsPerRead f" "olapsPerReadAlloc g = olapsPerReadAlloc f"
    "olapsPerReadLast g = olapsPerReadLast f" "isSeekable g = isSeekable f"
    using Cons.prems(2) by (simp_all add: gf)
  have isg: "index_sized g rs" using Cons.prems(4) by (simp add: gf)
  have ty: "dat_variant (dat ov) = nw" using Cons.prems(5) by simp
  have "\<exists>arr. count_pair ov g = Inr (g\<lparr>olapsPerRead := arr\<rparr>) \<and>
          index_sized (g\<lparr>olapsPerRead := arr\<rparr>) (rs @ [ov]) \<and> (arr = None \<longleftrightarrow> olapsPerRead g = None)"
  proof (cases "olapsPerRead g")
    case None
    then have "count_pair ov g = Inr (g\<lparr>olapsPerRead := None\<rparr>)" by (simp add: count_pair_def)
    then show ?thesis using None by (intro exI[of _ None]) (simp add: index_sized_def)
  next
    case (Some arr0)
    then have top: "largest_id (rs @ ov # ovs) \<le> olapsPerReadLast g" using Cons.prems(6) frame by simp
    have "a_iid ov \<le> largest_id (rs @ ov # ovs)" "b_iid ov \<le> largest_id (rs @ ov # ovs)"
      by (simp_all add: largest_id_ge)
    moreover have la: "olapsPerReadLast g < olapsPerReadAlloc g" and len: "length arr0 = unat (olapsPerReadAlloc g)"
      and four: "4 \<le> unat (olapsPerReadAlloc g)" and ex: "counts_exact arr0 rs"
      using isg Some by (simp_all add: index_sized_def)
    ultimately have "a_iid ov < olapsPerReadAlloc g" "b_iid ov < olapsPerReadAlloc g" using top by auto
    then have a: "unat (a_iid ov) < length arr0" and b: "unat (b_iid ov) < length arr0"
      using len by (simp_all add: word_less_nat_alt)
    from count_pair_Some[OF Some a b] obtain arr' where
      cp: "count_pair ov g = Inr (g\<lparr>olapsPerRead := Some arr'\<rparr>)" and len': "length arr' = length arr0"
      and ex': "counts_exact arr' (rs @ [ov])" using ex by auto
    have "largest_id (rs @ [ov]) \<le> largest_id (rs @ ov # ovs)" by (rule largest_id_mono) auto
    then have "largest_id (rs @ [ov]) \<le> olapsPerReadLast g" using top by simp
    then have "index_sized (g\<lparr>olapsPerRead := Some arr'\<rparr>) (rs @ [ov])"
      using la len len' four ex' by (simp add: index_sized_def)
    with cp show ?thesis using Some by (intro exI[of _ "Some arr'"]) simp
  qed
  then obtain arr where cp: "count_pair ov g = Inr (g\<lparr>olapsPerRead := arr\<rparr>)"
    and is1: "index_sized (g\<lparr>olapsPerRead := arr\<rparr>) (rs @ [ov])"
    and an: "arr = None \<longleftrightarrow> olapsPerRead g = None" by (elim exE conjE)
  define g1 where "g1 = g\<lparr>olapsPerRead := arr\<rparr>"
  have ok1: "buffer_ok nw g1" "isOutput g1" "bufferLen g1 < bufferMax g1" "written g1 = written g"
    "isNormal g1 = isNormal f" "bufferMax g1 = bufferMax f" "isSeekable g1 = isSeekable f"
    "olapsPerReadLast g1 = olapsPerReadLast f" "olapsPerRead g1 = arr"
    using gok room frame by (simp_all add: g1_def)
  define g2 where "g2 = g1\<lparr>buffer := take (bufferLen g1) (buffer g1) @ record_words (isNormal g1) ov @
                     drop (bufferLen g1 + record_width nw (isNormal g1)) (buffer g1),
                   bufferLen := bufferLen g1 + record_width nw (isNormal g1)\<rparr>"
  from put_record[OF ok1(1) ok1(2) ok1(3) ty]
  have p: "buffer_puts (record_words (isNormal g1) ov) g1 = Inr g2"
    and ok2: "buffer_ok nw g2" and w2: "written g2 = written g1 @ record_words (isNormal g1) ov"
    by (simp_all add: g2_def)
  have fr2: "isOutput g2" "isNormal g2 = isNormal f" "bufferMax g2 = bufferMax f"
    "isSeekable g2 = isSeekable f" "olapsPerReadLast g2 = olapsPerReadLast f" "olapsPerRead g2 = arr"
    using ok1 by (simp_all add: g2_def)
  have w2': "written g2 = encode_records (isNormal g2) (rs @ [ov])"
    using w2 ok1 wg Cons.prems(3) fr2 by (simp add: encode_records_snoc)
  have is2: "index_sized g2 (rs @ [ov])" using is1 by (simp add: g2_def g1_def)
  have top2: "olapsPerRead g2 \<noteq> None \<longrightarrow> largest_id ((rs @ [ov]) @ ovs) \<le> olapsPerReadLast g2"
    using Cons.prems(6) fr2 an frame by simp
  have ty2: "\<forall>ov \<in> set ovs. dat_variant (dat ov) = nw" using Cons.prems(5) by simp
  from Cons.IH[OF ok2 fr2(1) w2' is2 ty2 top2] obtain f' where
    l: "writeOverlaps_loop ovs g2 = Inr f'" and r: "buffer_ok nw f'"
    "written f' = encode_records (isNormal g2) ((rs @ [ov]) @ ovs)" "index_sized f' ((rs @ [ov]) @ ovs)"
    "same_config g2 f'" "olapsPerReadLast f' = olapsPerReadLast g2" by blast
  have "writeOverlaps_loop (ov # ovs) f = Inr f'"
    using cp p l by (simp add: g_def[symmetric] g1_def[symmetric])
  moreover have "same_config f g2" using fr2 an frame Cons.prems(2) by (simp add: same_config_def)
  then have "same_config f f'" using r(4) by (rule same_config_trans)
  ultimately show ?case using r fr2 by (intro exI[of _ f']) simp
qed

lemma writeOverlaps_step:
  fixes f :: ovFile
  assumes inv: "handle_inv nw f rs" and out: "isOutput f"
    and ty: "\<forall>ov \<in> set ovs. dat_variant (dat ov) = nw"
  shows "(writeOverlaps ovs f = Inl NeverReturns \<and> olapsPerRead f \<noteq> None \<and>
          (2 ^ 32 \<le> length ovs \<or>
           batch_newmax ovs (olapsPerReadAlloc f) (olapsPerReadLast f) = None)) \<or>
         (\<exists>f'. writeOverlaps ovs f = Inr f' \<and> handle_inv nw f' (rs @ ovs) \<and> same_config f f')"
proof -
  from inv have bok: "buffer_ok nw f" and ic: "index_counts f rs"
    and wr: "written f = encode_records (isNormal f) rs" using out by (simp_all add: handle_inv_def)
  have fin: "\<exists>f'. writeOverlaps ovs f = Inr f' \<and> handle_inv nw f' (rs @ ovs) \<and> same_config f f'"
    if f1e: "f1 = f\<lparr>olapsPerRead := a, olapsPerReadAlloc := b, olapsPerReadLast := c\<rparr>"
      and wi: "writeOverlaps_index ovs f = Inr f1" and is1: "index_sized f1 rs"
      and an: "a = None \<longleftrightarrow> olapsPerRead f = None"
      and top: "a \<noteq> None \<longrightarrow> c = largest_id (rs @ ovs)" for f1 a b c
  proof -
    have ok1: "buffer_ok nw f1" "isOutput f1" "written f1 = encode_records (isNormal f1) rs"
      using bok out wr by (simp_all add: f1e)
    have top1: "olapsPerRead f1 \<noteq> None \<longrightarrow> largest_id (rs @ ovs) \<le> olapsPerReadLast f1"
      using top by (simp add: f1e)
    from writeOverlaps_loop_ok[OF ok1 is1 ty top1] obtain f' where
      l: "writeOverlaps_loop ovs f1 = Inr f'" and ok': "buffer_ok nw f'"
      and w': "written f' = encode_records (isNormal f1) (rs @ ovs)"
      and is': "index_sized f' (rs @ ovs)" and sc: "same_config f1 f'"
      and last': "olapsPerReadLast f' = olapsPerReadLast f1" by blast
    have le: "bufferLen f' \<le> bufferMax f'" using ok' by (simp add: buffer_ok_def)
    have res: "writeOverlaps ovs f = Inr f'" using out wi l le by (simp add: writeOverlaps_def)
    have "same_config f f1" using an by (simp add: same_config_def f1e)
    then have sc': "same_config f f'" using sc by (rule same_config_trans)
    have "olapsPerRead f' \<noteq> None \<longrightarrow> olapsPerReadLast f' = largest_id (rs @ ovs)"
      using sc top last' by (simp add: same_config_def f1e)
    then have "index_counts f' (rs @ ovs)" using is' by (simp add: index_counts_def)
    moreover have "isNormal f' = isNormal f1" "isOutput f'" using sc ok1 by (simp_all add: same_config_def)
    ultimately have "handle_inv nw f' (rs @ ovs)" using ok' w' by (simp add: handle_inv_def)
    with res sc' show ?thesis by blast
  qed
  show ?thesis
  proof (cases "olapsPerRead f")
    case None
    have "index_sized f rs" using ic by (simp add: index_counts_def)
    then show ?thesis
      using fin[where ?f1.0 = f and a = "olapsPerRead f" and b = "olapsPerReadAlloc f"
          and c = "olapsPerReadLast f"] writeOverlaps_index_None[OF None] None by simp
  next
    case (Some arr0)
    then have some: "olapsPerRead f \<noteq> None" by simp
    from writeOverlaps_index_Some[OF some ic, of ovs]
    show ?thesis
    proof
      assume "(2 ^ 32 \<le> length ovs \<or> batch_newmax ovs (olapsPerReadAlloc f) (olapsPerReadLast f) = None) \<and>
          writeOverlaps_index ovs f = Inl NeverReturns"
      then show ?thesis using out some by (simp add: writeOverlaps_def)
    next
      assume "\<exists>arr alloc. writeOverlaps_index ovs f =
             Inr (f\<lparr>olapsPerRead := Some arr, olapsPerReadAlloc := alloc,
                    olapsPerReadLast := largest_id (rs @ ovs)\<rparr>) \<and>
            length arr = unat alloc \<and> largest_id (rs @ ovs) < alloc \<and> 4 \<le> unat alloc \<and>
            counts_exact arr rs"
      then obtain arr alloc where wi: "writeOverlaps_index ovs f =
             Inr (f\<lparr>olapsPerRead := Some arr, olapsPerReadAlloc := alloc,
                    olapsPerReadLast := largest_id (rs @ ovs)\<rparr>)"
        and sz: "length arr = unat alloc" "largest_id (rs @ ovs) < alloc" "4 \<le> unat alloc"
          "counts_exact arr rs" by (elim exE conjE)
      have "largest_id rs \<le> largest_id (rs @ ovs)" by (rule largest_id_mono) simp
      then have "index_sized (f\<lparr>olapsPerRead := Some arr, olapsPerReadAlloc := alloc,
                    olapsPerReadLast := largest_id (rs @ ovs)\<rparr>) rs"
        using sz by (simp add: index_sized_def)
      then show ?thesis using wi some
        by (intro disjI2 fin[where a = "Some arr" and b = alloc and c = "largest_id (rs @ ovs)"]) auto
    qed
  qed
qed

lemma writes_return:
  fixes f :: ovFile
  assumes "index_counts f rs" "olapsPerRead f \<noteq> None \<Longrightarrow> ids_below 3435973836 (rs @ ovs)"
  shows "grow_newmax (olapsPerReadAlloc f)
            (max (max (olapsPerReadLast f) (a_iid ov)) (b_iid ov)) = None \<Longrightarrow>
         olapsPerRead f \<noteq> None \<Longrightarrow> ovs = [ov] \<Longrightarrow> False"
    and "batch_newmax ovs (olapsPerReadAlloc f) (olapsPerReadLast f) = None \<Longrightarrow>
         olapsPerRead f \<noteq> None \<Longrightarrow> False"
proof -
  show "grow_newmax (olapsPerReadAlloc f)
            (max (max (olapsPerReadLast f) (a_iid ov)) (b_iid ov)) = None \<Longrightarrow>
         olapsPerRead f \<noteq> None \<Longrightarrow> ovs = [ov] \<Longrightarrow> False"
    using writeOverlap_index_returns[of f rs ov] assms by auto
  assume bn: "batch_newmax ovs (olapsPerReadAlloc f) (olapsPerReadLast f) = None"
    and some: "olapsPerRead f \<noteq> None"
  have "olapsPerReadLast f = largest_id rs" "4 \<le> unat (olapsPerReadAlloc f)"
    using some assms(1) by (auto simp: index_counts_def index_sized_def)
  moreover have "ids_below 3435973836 rs" "ids_below 3435973836 ovs"
    using assms(2)[OF some] by (auto simp: ids_below_def)
  ultimately have "batch_newmax ovs (olapsPerReadAlloc f) (olapsPerReadLast f) \<noteq> None"
    using largest_id_bound[of 3435973836 rs] by (intro batch_newmax_returns) simp_all
  with bn show False by simp
qed

subsection \<open>Reading\<close>

lemma length_encode_records:
  "\<forall>ov \<in> set rs. dat_variant (dat ov) = nw \<Longrightarrow>
   length (encode_records normal rs) = length rs * record_width nw normal"
  by (induction rs) (simp_all add: encode_records_def length_record_words)

lemma encode_records_Cons:
  "encode_records normal (r # rs) = record_words normal r @ encode_records normal rs"
  by (simp add: encode_records_def)

lemma readBuffer_ok:
  assumes "buffer_ok nw f" "\<not> isOutput f"
  shows "buffer_ok nw (readBuffer f)"
  using assms by (auto simp: buffer_ok_def readBuffer_def Let_def AS_UTL_safeRead_def)

lemma readBuffer_same: "same_config f (readBuffer f)"
  by (auto simp: same_config_def readBuffer_def Let_def)

lemma readBuffer_data:
  assumes inv: "read_inv nw f rs"
  shows "read_inv nw (readBuffer f) rs"
    and "rs \<noteq> [] \<Longrightarrow> bufferPos (readBuffer f) < bufferLen (readBuffer f)"
    and "rs = [] \<Longrightarrow> bufferLen (readBuffer f) = 0"
proof -
  let ?w = "record_width nw (isNormal f)"
  from inv have bok: "buffer_ok nw f" and out: "\<not> isOutput f"
    and dv: "?w dvd length (in_buffer f)"
    and data: "in_buffer f @ unread f = encode_records (isNormal f) rs"
    and ty: "\<forall>ov \<in> set rs. dat_variant (dat ov) = nw" by (simp_all add: read_inv_def)
  have tot: "length (in_buffer f) + length (unread f) = length rs * ?w"
    using arg_cong[OF data, of length] length_encode_records[OF ty] by simp
  have wpos: "0 < ?w" by (rule record_width_pos)
  have bm: "length (buffer f) = bufferMax f" "0 < bufferMax f" "?w dvd bufferMax f"
    "bufferLen f \<le> bufferMax f" using bok by (simp_all add: buffer_ok_def)
  have "read_inv nw (readBuffer f) rs \<and>
        (rs \<noteq> [] \<longrightarrow> bufferPos (readBuffer f) < bufferLen (readBuffer f)) \<and>
        (rs = [] \<longrightarrow> bufferLen (readBuffer f) = 0)"
  proof (cases "bufferPos f < bufferLen f")
    case True
    then have same: "readBuffer f = f" by (simp add: readBuffer_def)
    have "in_buffer f \<noteq> []" using True bm by (simp add: in_buffer_def)
    then have "rs \<noteq> []" using data by (auto simp: encode_records_def)
    then show ?thesis using True same inv by simp
  next
    case False
    then have empty: "in_buffer f = []" by (simp add: in_buffer_def)
    define ws where "ws = take (bufferMax f) (unread f)"
    define f1 where "f1 = f\<lparr>bufferPos := 0, buffer := ws @ drop (length ws) (buffer f),
             bufferLen := length ws, file_pos := file_pos f + 4 * length ws\<rparr>"
    have rb: "readBuffer f = f1"
      using False by (simp add: readBuffer_def Let_def AS_UTL_safeRead_def unread_def ws_def f1_def)
    have lws: "length ws = min (length (unread f)) (bufferMax f)" by (simp add: ws_def)
    have ib1: "in_buffer f1 = ws" by (simp add: in_buffer_def f1_def)
    have "unread f1 = drop (length ws) (unread f)"
      by (simp add: unread_def f1_def add.commute)
    moreover have "ws @ drop (length ws) (unread f) = unread f"
      unfolding ws_def by (metis append_take_drop_id length_take drop_take min.commute take_all_iff
          append_Nil2 drop_all linorder_le_cases min_def)
    ultimately have data1: "in_buffer f1 @ unread f1 = encode_records (isNormal f1) rs"
      using ib1 data empty by (simp add: f1_def)
    have "?w dvd length (unread f)" using tot empty by simp
    then have dv1: "?w dvd length ws" using bm(3) unfolding lws by (simp add: min_def)
    have ok1: "buffer_ok nw f1" using readBuffer_ok[OF bok out] rb by simp
    have inv1: "read_inv nw f1 rs" using ok1 out dv1 data1 ty ib1
      by (simp add: read_inv_def) (simp add: f1_def)
    have "length ws = 0 \<longleftrightarrow> rs = []" using tot empty wpos bm(2) lws by (auto simp: min_def)
    then show ?thesis using inv1 rb by (auto simp: f1_def)
  qed
  then show "read_inv nw (readBuffer f) rs"
    and "rs \<noteq> [] \<Longrightarrow> bufferPos (readBuffer f) < bufferLen (readBuffer f)"
    and "rs = [] \<Longrightarrow> bufferLen (readBuffer f) = 0" by simp_all
qed

lemma read_record_safe:
  assumes bok: "buffer_ok nw f" and out: "\<not> isOutput f"
  shows "read_record nw ov f = Inl AssertFailed \<or>
         (\<exists>r f'. read_record nw ov f = Inr (r, f') \<and> buffer_ok nw f' \<and> same_config f f')"
proof -
  define f1 where "f1 = readBuffer f"
  have ok1: "buffer_ok nw f1" unfolding f1_def using bok out by (rule readBuffer_ok)
  have sc1: "same_config f f1" unfolding f1_def by (rule readBuffer_same)
  have out1: "\<not> isOutput f1" using sc1 out by (simp add: same_config_def)
  let ?w = "record_width nw (isNormal f1)"
  show ?thesis
  proof (cases "bufferLen f1 = 0 \<or> \<not> bufferPos f1 < bufferLen f1")
    case True
    then show ?thesis using ok1 sc1 by (auto simp: read_record_def f1_def[symmetric] Let_def)
  next
    case False
    then have lt: "bufferPos f1 < bufferLen f1" and nz: "bufferLen f1 \<noteq> 0" by simp_all
    have b: "length (buffer f1) = bufferMax f1" "?w dvd bufferMax f1" "bufferLen f1 \<le> bufferMax f1"
      "?w dvd bufferPos f1" using ok1 out1 lt by (simp_all add: buffer_ok_def)
    have "bufferPos f1 + ?w \<le> bufferMax f1" using b lt by (intro dvd_room) simp_all
    then have g: "buffer_gets ?w f1 =
        Inr (take ?w (drop (bufferPos f1) (buffer f1)), f1\<lparr>bufferPos := bufferPos f1 + ?w\<rparr>)"
      using b(1) by (intro buffer_gets_ok) simp
    let ?f2 = "f1\<lparr>bufferPos := bufferPos f1 + ?w\<rparr>"
    show ?thesis
    proof (cases "bufferPos f1 + ?w \<le> bufferLen f1")
      case True
      have "buffer_ok nw ?f2" using ok1 out1 b(4) by (simp add: buffer_ok_def)
      moreover have "same_config f ?f2" using sc1 by (simp add: same_config_def)
      ultimately show ?thesis using g lt nz True
        by (simp add: read_record_def f1_def[symmetric] Let_def)
    next
      case False
      then show ?thesis using g lt nz by (simp add: read_record_def f1_def[symmetric] Let_def)
    qed
  qed
qed

lemma read_record_data:
  assumes inv: "read_inv nw f (r # rs)"
  shows "\<exists>f'. read_record nw ov f = Inr (Some (if isNormal f then r\<lparr>a_iid := a_iid ov\<rparr> else r), f') \<and>
           read_inv nw f' rs \<and> same_config f f'"
proof -
  define f1 where "f1 = readBuffer f"
  have inv1: "read_inv nw f1 (r # rs)" and lt: "bufferPos f1 < bufferLen f1"
    unfolding f1_def using readBuffer_data[OF inv] by simp_all
  have sc1: "same_config f f1" unfolding f1_def by (rule readBuffer_same)
  then have n1: "isNormal f1 = isNormal f" by (simp add: same_config_def)
  let ?w = "record_width nw (isNormal f1)"
  from inv1 have ok1: "buffer_ok nw f1" and out1: "\<not> isOutput f1"
    and dv: "?w dvd length (in_buffer f1)"
    and data: "in_buffer f1 @ unread f1 = encode_records (isNormal f1) (r # rs)"
    and ty: "dat_variant (dat r) = nw" "\<forall>ov \<in> set rs. dat_variant (dat ov) = nw"
    by (simp_all add: read_inv_def)
  have b: "length (buffer f1) = bufferMax f1" "bufferLen f1 \<le> bufferMax f1"
    using ok1 by (simp_all add: buffer_ok_def)
  have lib: "length (in_buffer f1) = bufferLen f1 - bufferPos f1" using b by (simp add: in_buffer_def)
  have "0 < length (in_buffer f1)" using lib lt by simp
  with dv have "?w \<le> length (in_buffer f1)" by (auto dest: dvd_imp_le)
  then have fits: "bufferPos f1 + ?w \<le> bufferLen f1" using lib lt by simp
  have lrw: "length (record_words (isNormal f1) r) = ?w" using ty(1) by (simp add: length_record_words)
  have g: "buffer_gets ?w f1 =
        Inr (take ?w (drop (bufferPos f1) (buffer f1)), f1\<lparr>bufferPos := bufferPos f1 + ?w\<rparr>)"
    using b fits by (intro buffer_gets_ok) simp
  have "take ?w (drop (bufferPos f1) (buffer f1)) = take ?w (in_buffer f1)"
    using fits by (simp add: in_buffer_def drop_take min_def)
  also have "\<dots> = take ?w (in_buffer f1 @ unread f1)" using \<open>?w \<le> length (in_buffer f1)\<close> by simp
  also have "\<dots> = record_words (isNormal f1) r" unfolding data encode_records_Cons using lrw by simp
  finally have words: "take ?w (drop (bufferPos f1) (buffer f1)) = record_words (isNormal f1) r" .
  let ?f2 = "f1\<lparr>bufferPos := bufferPos f1 + ?w\<rparr>"
  have ib2: "in_buffer ?f2 = drop ?w (in_buffer f1)" by (simp add: in_buffer_def add.commute)
  have "drop ?w (in_buffer f1 @ unread f1) = encode_records (isNormal f1) rs"
    unfolding data encode_records_Cons using lrw by simp
  then have data2: "in_buffer ?f2 @ unread ?f2 = encode_records (isNormal ?f2) rs"
    using ib2 \<open>?w \<le> length (in_buffer f1)\<close> by (simp add: unread_def)
  have "?w dvd bufferPos f1" using ok1 out1 lt by (simp add: buffer_ok_def)
  then have ok2: "buffer_ok nw ?f2" using ok1 out1 by (simp add: buffer_ok_def)
  have dv2: "?w dvd length (in_buffer ?f2)" using dv ib2 \<open>?w \<le> length (in_buffer f1)\<close> by simp
  have inv2: "read_inv nw ?f2 rs" using ok2 out1 dv2 data2 ty(2) by (simp add: read_inv_def)
  have sc2: "same_config f ?f2" using sc1 by (simp add: same_config_def)
  have st: "store_fields nw (isNormal f1) ov (record_words (isNormal f1) r) =
      (if isNormal f then r\<lparr>a_iid := a_iid ov\<rparr> else r)"
    using store_fields_record_words[of r "isNormal f1" ov] ty(1) n1 by simp
  have "bufferLen f1 \<noteq> 0" using lt by simp
  then have "read_record nw ov f =
      Inr (Some (if isNormal f then r\<lparr>a_iid := a_iid ov\<rparr> else r), ?f2)"
    using g lt fits words st by (simp add: read_record_def f1_def[symmetric] Let_def)
  with inv2 sc2 show ?thesis by blast
qed

lemma read_record_end:
  assumes inv: "read_inv nw f []"
  shows "read_record nw ov f = Inr (None, readBuffer f)" and "read_inv nw (readBuffer f) []"
  using readBuffer_data[OF inv] by (simp_all add: read_record_def Let_def)

lemma readOverlaps_loop_safe:
  assumes "buffer_ok nw f" "\<not> isOutput f"
  shows "readOverlaps_loop nw ds f = Inl AssertFailed \<or>
         (\<exists>l f'. readOverlaps_loop nw ds f = Inr (l, f') \<and> buffer_ok nw f' \<and> same_config f f')"
  using assms
proof (induction ds arbitrary: f)
  case Nil
  then show ?case by (simp add: same_config_refl)
next
  case (Cons d ds)
  from read_record_safe[OF Cons.prems, of d]
  show ?case
  proof
    assume "read_record nw d f = Inl AssertFailed"
    then show ?thesis by simp
  next
    assume "\<exists>r f'. read_record nw d f = Inr (r, f') \<and> buffer_ok nw f' \<and> same_config f f'"
    then obtain r f1 where rr: "read_record nw d f = Inr (r, f1)" and ok1: "buffer_ok nw f1"
      and sc1: "same_config f f1" by blast
    have out1: "\<not> isOutput f1" using sc1 Cons.prems(2) by (simp add: same_config_def)
    show ?thesis
    proof (cases r)
      case None
      then show ?thesis using rr ok1 sc1 by simp
    next
      case (Some ov1)
      from Cons.IH[OF ok1 out1] show ?thesis
      proof
        assume "readOverlaps_loop nw ds f1 = Inl AssertFailed"
        then show ?thesis using rr Some by simp
      next
        assume "\<exists>l f'. readOverlaps_loop nw ds f1 = Inr (l, f') \<and> buffer_ok nw f' \<and> same_config f1 f'"
        then obtain l f' where "readOverlaps_loop nw ds f1 = Inr (l, f')" "buffer_ok nw f'"
          "same_config f1 f'" by blast
        then show ?thesis using rr Some same_config_trans[OF sc1] by auto
      qed
    qed
  qed
qed

lemma readOverlaps_loop_data:
  assumes "read_inv nw f rs"
  shows "\<exists>f'. readOverlaps_loop nw ds f =
              Inr (map (\<lambda>(d, r). merge_record (isNormal f) d r) (zip ds rs), f') \<and>
           read_inv nw f' (drop (length ds) rs) \<and> same_config f f'"
  using assms
proof (induction ds arbitrary: f rs)
  case Nil
  then show ?case by (simp add: same_config_refl)
next
  case (Cons d ds)
  show ?case
  proof (cases rs)
    case Nil
    with Cons.prems have inv: "read_inv nw f []" by simp
    from read_record_end(1)[OF inv, of d] read_record_end(2)[OF inv] readBuffer_same[of f]
    show ?thesis using Nil by simp
  next
    case (Cons r rs')
    with Cons.prems have inv: "read_inv nw f (r # rs')" by simp
    from read_record_data[OF inv, of d] obtain f1 where
      rr: "read_record nw d f = Inr (Some (merge_record (isNormal f) d r), f1)"
      and inv1: "read_inv nw f1 rs'" and sc1: "same_config f f1"
      by (auto simp: merge_record_def)
    from Cons.IH[OF inv1] obtain f' where
      l: "readOverlaps_loop nw ds f1 = Inr (map (\<lambda>(d, r). merge_record (isNormal f1) d r) (zip ds rs'), f')"
      and inv': "read_inv nw f' (drop (length ds) rs')" and sc': "same_config f1 f'" by blast
    have "isNormal f1 = isNormal f" using sc1 by (simp add: same_config_def)
    then show ?thesis using rr l inv' same_config_trans[OF sc1 sc'] Cons by simp
  qed
qed

lemma recordSize_width: "recordSize nw f = 4 * record_width nw (isNormal f)"
  by (cases nw) (simp_all add: recordSize_def record_width_def)

lemma drop_encode_records:
  "\<forall>ov \<in> set rs. dat_variant (dat ov) = nw \<Longrightarrow>
   drop (k * record_width nw normal) (encode_records normal rs) = encode_records normal (drop k rs)"
proof (induction rs arbitrary: k)
  case Nil
  then show ?case by (simp add: encode_records_def)
next
  case (Cons r rs)
  show ?case
  proof (cases k)
    case 0
    then show ?thesis by simp
  next
    case (Suc j)
    have "length (record_words normal r) = record_width nw normal"
      using Cons.prems by (simp add: length_record_words)
    then show ?thesis using Suc Cons by (simp add: encode_records_Cons)
  qed
qed

lemma seekOverlap_data:
  assumes bok: "buffer_ok nw f" and out: "\<not> isOutput f" and sk: "isSeekable f"
    and fw: "file_words f = encode_records (isNormal f) rs"
    and ty: "\<forall>ov \<in> set rs. dat_variant (dat ov) = nw"
  shows "seekOverlap nw k f =
           Inr (f\<lparr>file_pos := k * recordSize nw f, bufferPos := bufferLen f\<rparr>)"
    and "read_inv nw (f\<lparr>file_pos := k * recordSize nw f, bufferPos := bufferLen f\<rparr>) (drop k rs)"
proof -
  let ?f' = "f\<lparr>file_pos := k * recordSize nw f, bufferPos := bufferLen f\<rparr>"
  show "seekOverlap nw k f = Inr ?f'" using sk by (simp add: seekOverlap_def)
  have ib: "in_buffer ?f' = []" by (simp add: in_buffer_def)
  have "unread ?f' = drop (k * record_width nw (isNormal f)) (encode_records (isNormal f) rs)"
    using fw by (simp add: unread_def recordSize_width)
  then have un: "unread ?f' = encode_records (isNormal f) (drop k rs)"
    using drop_encode_records[OF ty] by simp
  have "buffer_ok nw ?f'" using bok out by (simp add: buffer_ok_def)
  moreover have "\<forall>ov \<in> set (drop k rs). dat_variant (dat ov) = nw"
    using ty by (auto dest: in_set_dropD)
  ultimately show "read_inv nw ?f' (drop k rs)" using out ib un by (simp add: read_inv_def)
qed

subsection \<open>Sequences of calls\<close>

lemma handle_inv_read:
  assumes inv: "handle_inv nw f rs" and out: "\<not> isOutput f"
    and ok': "buffer_ok nw f'" and sc: "same_config f f'"
  shows "handle_inv nw f' rs"
proof -
  have "olapsPerRead f' = None" "\<not> isOutput f'" using inv out sc
    by (simp_all add: handle_inv_def same_config_def)
  then show ?thesis using ok' by (simp add: handle_inv_def index_counts_def index_sized_def)
qed

lemma do_call_inv:
  assumes inv: "handle_inv nw f rs"
    and ty: "\<forall>ov \<in> set (call_records c). dat_variant (dat ov) = nw"
  shows "do_call nw c f \<noteq> Inl OutOfBounds"
    and "do_call nw c f = Inr f' \<Longrightarrow> handle_inv nw f' (rs @ call_records c) \<and> same_config f f'"
proof -
  have bok: "buffer_ok nw f" using inv by (simp add: handle_inv_def)
  have "do_call nw c f \<noteq> Inl OutOfBounds \<and>
        (do_call nw c f = Inr f' \<longrightarrow> handle_inv nw f' (rs @ call_records c) \<and> same_config f f')"
  proof (cases c)
    case (WriteOverlap ov)
    show ?thesis
    proof (cases "isOutput f")
      case True
      from writeOverlap_step[OF inv True, of ov] ty WriteOverlap show ?thesis by auto
    next
      case False
      then show ?thesis using WriteOverlap by (simp add: writeOverlap_def)
    qed
  next
    case (WriteOverlaps ovs)
    show ?thesis
    proof (cases "isOutput f")
      case True
      from writeOverlaps_step[OF inv True, of ovs] ty WriteOverlaps show ?thesis by auto
    next
      case False
      then show ?thesis using WriteOverlaps by (simp add: writeOverlaps_def)
    qed
  next
    case (ReadOverlap ov)
    show ?thesis
    proof (cases "isOutput f")
      case True
      then show ?thesis using ReadOverlap by (simp add: readOverlap_def)
    next
      case False
      from read_record_safe[OF bok False, of ov] show ?thesis
      proof
        assume "read_record nw ov f = Inl AssertFailed"
        then show ?thesis using ReadOverlap False by (simp add: readOverlap_def)
      next
        assume "\<exists>r f'. read_record nw ov f = Inr (r, f') \<and> buffer_ok nw f' \<and> same_config f f'"
        then obtain r f1 where "read_record nw ov f = Inr (r, f1)" "buffer_ok nw f1" "same_config f f1"
          by blast
        then show ?thesis using ReadOverlap False handle_inv_read[OF inv False, of f1]
          by (cases r) (auto simp: readOverlap_def)
      qed
    qed
  next
    case (ReadOverlaps ds)
    show ?thesis
    proof (cases "isOutput f")
      case True
      then show ?thesis using ReadOverlaps by (simp add: readOverlaps_def)
    next
      case False
      from readOverlaps_loop_safe[OF bok False, of ds] show ?thesis
      proof
        assume "readOverlaps_loop nw ds f = Inl AssertFailed"
        then show ?thesis using ReadOverlaps False by (simp add: readOverlaps_def)
      next
        assume "\<exists>l f'. readOverlaps_loop nw ds f = Inr (l, f') \<and> buffer_ok nw f' \<and> same_config f f'"
        then obtain l f1 where "readOverlaps_loop nw ds f = Inr (l, f1)" "buffer_ok nw f1" "same_config f f1"
          by blast
        then show ?thesis using ReadOverlaps False handle_inv_read[OF inv False, of f1]
          by (auto simp: readOverlaps_def)
      qed
    qed
  next
    case (SeekOverlap k)
    show ?thesis
    proof (cases "isSeekable f")
      case False
      then show ?thesis using SeekOverlap by (simp add: seekOverlap_def)
    next
      case True
      let ?f1 = "f\<lparr>file_pos := k * recordSize nw f, bufferPos := bufferLen f\<rparr>"
      have r: "do_call nw c f = Inr ?f1" using True SeekOverlap by (simp add: seekOverlap_def)
      have "buffer_ok nw ?f1" using bok by (simp add: buffer_ok_def)
      moreover have "index_counts ?f1 rs" using inv
        by (auto simp: handle_inv_def index_counts_def index_sized_def split: option.splits)
      moreover have "written ?f1 = written f" by (simp add: written_def)
      ultimately have "handle_inv nw ?f1 rs" using inv by (simp add: handle_inv_def)
      moreover have "same_config f ?f1" by (simp add: same_config_def)
      ultimately show ?thesis using r SeekOverlap by auto
    qed
  qed
  then show "do_call nw c f \<noteq> Inl OutOfBounds"
    and "do_call nw c f = Inr f' \<Longrightarrow> handle_inv nw f' (rs @ call_records c) \<and> same_config f f'"
    by simp_all
qed

lemma do_calls_inv:
  assumes "handle_inv nw f rs"
    and "\<forall>ov \<in> set (records_written calls). dat_variant (dat ov) = nw"
  shows "do_calls nw calls f \<noteq> Inl OutOfBounds \<and>
         (\<forall>f'. do_calls nw calls f = Inr f' \<longrightarrow>
               handle_inv nw f' (rs @ records_written calls) \<and> same_config f f')"
  using assms
proof (induction calls arbitrary: f rs)
  case Nil
  then show ?case by (simp add: records_written_def same_config_refl)
next
  case (Cons c cs)
  have ty1: "\<forall>ov \<in> set (call_records c). dat_variant (dat ov) = nw"
    and ty2: "\<forall>ov \<in> set (records_written cs). dat_variant (dat ov) = nw"
    using Cons.prems(2) by (simp_all add: records_written_def)
  show ?case
  proof (cases "do_call nw c f")
    case (Inl e)
    then show ?thesis using do_call_inv(1)[OF Cons.prems(1) ty1] by simp
  next
    case (Inr f1)
    from do_call_inv(2)[OF Cons.prems(1) ty1 Inr] have inv1: "handle_inv nw f1 (rs @ call_records c)"
      and sc1: "same_config f f1" by simp_all
    from Cons.IH[OF inv1 ty2] show ?thesis using Inr same_config_trans[OF sc1]
      by (auto simp: records_written_def)
  qed
qed

lemma do_calls_returns:
  assumes "handle_inv nw f rs" "isOutput f"
    and "\<forall>ov \<in> set (records_written calls). dat_variant (dat ov) = nw"
    and "\<forall>c \<in> set calls. is_write c"
    and "olapsPerRead f \<noteq> None \<longrightarrow>
           (\<forall>c \<in> set calls. length (call_records c) < 2 ^ 32) \<and>
           ids_below 3435973836 (rs @ records_written calls)"
  shows "\<exists>f'. do_calls nw calls f = Inr f'"
  using assms
proof (induction calls arbitrary: f rs)
  case Nil
  then show ?case by simp
next
  case (Cons c cs)
  have ty1: "\<forall>ov \<in> set (call_records c). dat_variant (dat ov) = nw"
    and ty2: "\<forall>ov \<in> set (records_written cs). dat_variant (dat ov) = nw"
    using Cons.prems(3) by (simp_all add: records_written_def)
  have ic: "index_counts f rs" using Cons.prems(1) by (simp add: handle_inv_def)
  have b1: "olapsPerRead f \<noteq> None \<Longrightarrow> ids_below 3435973836 (rs @ call_records c)"
    and b2: "olapsPerRead f \<noteq> None \<Longrightarrow> ids_below 3435973836 ((rs @ call_records c) @ records_written cs)"
    and short: "olapsPerRead f \<noteq> None \<Longrightarrow> length (call_records c) < 2 ^ 32"
    and shorts: "olapsPerRead f \<noteq> None \<Longrightarrow> \<forall>c \<in> set cs. length (call_records c) < 2 ^ 32"
    using Cons.prems(5) by (auto simp: records_written_def ids_below_def)
  have "\<exists>f1. do_call nw c f = Inr f1"
  proof (cases c)
    case (WriteOverlap ov)
    from writeOverlap_step[OF Cons.prems(1,2), of ov] ty1 WriteOverlap
      writes_return(1)[OF ic b1, of ov] show ?thesis by auto
  next
    case (WriteOverlaps ovs)
    have "olapsPerRead f \<noteq> None \<Longrightarrow> \<not> 2 ^ 32 \<le> length ovs" using short WriteOverlaps by simp
    with writeOverlaps_step[OF Cons.prems(1,2), of ovs] ty1 WriteOverlaps
      writes_return(2)[OF ic b1] show ?thesis by auto
  qed (use Cons.prems(4) in auto)
  then obtain f1 where r: "do_call nw c f = Inr f1" by blast
  from do_call_inv(2)[OF Cons.prems(1) ty1 r] have inv1: "handle_inv nw f1 (rs @ call_records c)"
    and sc1: "same_config f f1" by simp_all
  have out1: "isOutput f1" and idx: "olapsPerRead f1 \<noteq> None \<Longrightarrow> olapsPerRead f \<noteq> None"
    using sc1 Cons.prems(2) by (auto simp: same_config_def)
  have w2: "\<forall>c \<in> set cs. is_write c" using Cons.prems(4) by simp
  have "olapsPerRead f1 \<noteq> None \<longrightarrow>
           (\<forall>c \<in> set cs. length (call_records c) < 2 ^ 32) \<and>
           ids_below 3435973836 ((rs @ call_records c) @ records_written cs)"
    using idx b2 shorts by blast
  from Cons.IH[OF inv1 out1 ty2 w2 this] r show ?case by simp
qed

lemma read_handle_calls:
  assumes "handle_inv nw f []" "\<not> isOutput f" "do_calls nw calls f = Inr f'"
  shows "handle_inv nw f' [] \<and> same_config f f'"
  using assms
proof (induction calls arbitrary: f)
  case Nil
  then show ?case by (simp add: same_config_refl)
next
  case (Cons c cs)
  from Cons.prems(3) obtain f1 where r: "do_call nw c f = Inr f1" and rest: "do_calls nw cs f1 = Inr f'"
    by (auto split: sum.splits)
  have nr: "call_records c = []" using r Cons.prems(2)
    by (cases c) (simp_all add: writeOverlap_def writeOverlaps_def)
  then have "\<forall>ov \<in> set (call_records c). dat_variant (dat ov) = nw" by simp
  from do_call_inv(2)[OF Cons.prems(1) this r] nr have inv1: "handle_inv nw f1 []"
    and sc1: "same_config f f1" by simp_all
  have out1: "\<not> isOutput f1" using sc1 Cons.prems(2) by (simp add: same_config_def)
  from Cons.IH[OF inv1 out1 rest] same_config_trans[OF sc1] show ?case by blast
qed

subsection \<open>Construction, destruction and sessions\<close>

lemma ctor_fields:
  "isOutput (ovFile_ctor nw contents compressed type bs) = is_write_type type"
  "isNormal (ovFile_ctor nw contents compressed type bs) = (type = ovFileNormal \<or> type = ovFileNormalWrite)"
  "isSeekable (ovFile_ctor nw contents compressed type bs) =
     ((type = ovFileNormal \<or> type = ovFileFull) \<and> \<not> compressed)"
  "bufferMax (ovFile_ctor nw contents compressed type bs) = ctor_bufferMax nw bs"
  "bufferLen (ovFile_ctor nw contents compressed type bs) = 0"
  "bufferPos (ovFile_ctor nw contents compressed type bs) = ctor_bufferMax nw bs"
  "file_pos (ovFile_ctor nw contents compressed type bs) = 0"
  "file_words (ovFile_ctor nw contents compressed type bs) =
     (if type = ovFileNormal \<or> type = ovFileFull then contents else [])"
  "(olapsPerRead (ovFile_ctor nw contents compressed type bs) = None) = (type \<noteq> ovFileFullWrite)"
  by (simp_all add: ovFile_ctor_def is_write_type_def)

lemma ctor_buffer_ok: "buffer_ok nw (ovFile_ctor nw contents compressed type bs)"
  using ctor_bufferMax_dvd[of nw contents compressed type bs] ctor_bufferMax_pos[of nw bs]
  by (cases "type = ovFileNormal \<or> type = ovFileNormalWrite")
     (simp_all add: buffer_ok_def ovFile_ctor_def)

lemma ctor_inv: "handle_inv nw (ovFile_ctor nw contents compressed type bs) []"
proof -
  let ?f = "ovFile_ctor nw contents compressed type bs"
  have "index_counts ?f []"
    by (simp add: index_counts_def index_sized_def ovFile_ctor_def largest_id_Nil
        counts_exact_def appearances_def)
  moreover have "isOutput ?f \<longrightarrow> written ?f = []" by (simp add: written_def ovFile_ctor_def)
  moreover have "\<not> isOutput ?f \<longrightarrow> olapsPerRead ?f = None"
    by (auto simp: ovFile_ctor_def)
  ultimately show ?thesis using ctor_buffer_ok[of nw contents compressed type bs]
    by (simp add: handle_inv_def encode_records_def)
qed

lemma dtor_write:
  assumes inv: "handle_inv nw f rs" and out: "isOutput f"
  shows "ovFile_dtor f =
     Inr (encode_records (isNormal f) rs,
          (case olapsPerRead f of
             None \<Rightarrow> None
           | Some arr \<Rightarrow> Some ((largest_id rs + 1) # take (unat (largest_id rs) + 1) arr)))"
proof -
  let ?f1 = "writeBuffer True f"
  have fw: "file_words ?f1 = written f" using out by (simp add: writeBuffer_def written_def)
  have same: "olapsPerRead ?f1 = olapsPerRead f" "olapsPerReadLast ?f1 = olapsPerReadLast f"
    by (simp_all add: writeBuffer_def)
  have wr: "written f = encode_records (isNormal f) rs" using inv out by (simp add: handle_inv_def)
  show ?thesis
  proof (cases "olapsPerRead f")
    case None
    then show ?thesis using fw same wr by (simp add: ovFile_dtor_def Let_def)
  next
    case (Some arr)
    with inv have len: "length arr = unat (olapsPerReadAlloc f)"
      and la: "olapsPerReadLast f < olapsPerReadAlloc f"
      and lg: "olapsPerReadLast f = largest_id rs"
      by (auto simp: handle_inv_def index_counts_def index_sized_def)
    have "unat (olapsPerReadLast f) < unat (olapsPerReadAlloc f)" using la by (simp add: word_less_nat_alt)
    moreover have "unat (olapsPerReadAlloc f) < 2 ^ 32" using unsigned_less[of "olapsPerReadAlloc f"] by simp
    ultimately have l1: "unat (olapsPerReadLast f + 1) = unat (olapsPerReadLast f) + 1"
      and le: "unat (olapsPerReadLast f) + 1 \<le> length arr" using len by (simp_all add: unat_word_ariths)
    show ?thesis using Some fw same wr l1 le lg by (simp add: ovFile_dtor_def Let_def)
  qed
qed

lemma session_write:
  assumes wt: "is_write_type type"
    and ty: "\<forall>ov \<in> set (records_written calls). dat_variant (dat ov) = nw"
    and s: "ovFile_session nw contents compressed type bs calls = Inr (file, cnt)"
  shows "file = encode_records (type = ovFileNormalWrite) (records_written calls)"
    and "type \<noteq> ovFileFullWrite \<Longrightarrow> cnt = None"
    and "type = ovFileFullWrite \<Longrightarrow>
           \<exists>entries. cnt = Some ((largest_id (records_written calls) + 1) # entries) \<and>
             length entries = unat (largest_id (records_written calls)) + 1 \<and>
             (\<forall>i \<le> largest_id (records_written calls).
                 entries ! unat i = of_nat (appearances i (records_written calls)))"
proof -
  let ?f0 = "ovFile_ctor nw contents compressed type bs"
  let ?rs = "records_written calls"
  from s obtain f where dc: "do_calls nw calls ?f0 = Inr f" and dt: "ovFile_dtor f = Inr (file, cnt)"
    by (auto simp: ovFile_session_def split: sum.splits)
  from do_calls_inv[OF ctor_inv ty, of contents compressed type bs] dc
  have inv: "handle_inv nw f ?rs" and sc: "same_config ?f0 f" by simp_all
  have out: "isOutput f" and nrm: "isNormal f = (type = ovFileNormalWrite)"
    and idx: "(olapsPerRead f = None) = (type \<noteq> ovFileFullWrite)"
    using sc wt by (auto simp: same_config_def ctor_fields is_write_type_def)
  note d = dtor_write[OF inv out]
  show "file = encode_records (type = ovFileNormalWrite) ?rs" using d dt nrm by simp
  show "type \<noteq> ovFileFullWrite \<Longrightarrow> cnt = None" using d dt idx by simp
  assume "type = ovFileFullWrite"
  then obtain arr where arr: "olapsPerRead f = Some arr" using idx by auto
  with inv have len: "length arr = unat (olapsPerReadAlloc f)"
    and la: "olapsPerReadLast f < olapsPerReadAlloc f"
    and lg: "olapsPerReadLast f = largest_id ?rs"
    and ex: "counts_exact arr ?rs"
    by (auto simp: handle_inv_def index_counts_def index_sized_def)
  have lt: "unat (largest_id ?rs) < length arr" using la lg len by (simp add: word_less_nat_alt)
  let ?entries = "take (unat (largest_id ?rs) + 1) arr"
  have "cnt = Some ((largest_id ?rs + 1) # ?entries)" using d dt arr by simp
  moreover have "length ?entries = unat (largest_id ?rs) + 1" using lt by simp
  moreover have "\<forall>i \<le> largest_id ?rs. ?entries ! unat i = of_nat (appearances i ?rs)"
  proof (intro allI impI)
    fix i assume "i \<le> largest_id ?rs"
    then have "unat i \<le> unat (largest_id ?rs)" by (simp add: word_le_nat_alt)
    then show "?entries ! unat i = of_nat (appearances i ?rs)"
      using lt ex by (simp add: counts_exact_def)
  qed
  ultimately show "\<exists>entries. cnt = Some ((largest_id ?rs + 1) # entries) \<and>
             length entries = unat (largest_id ?rs) + 1 \<and>
             (\<forall>i \<le> largest_id ?rs. entries ! unat i = of_nat (appearances i ?rs))" by blast
qed

lemma session_returns:
  assumes wt: "is_write_type type"
    and ty: "\<forall>ov \<in> set (records_written calls). dat_variant (dat ov) = nw"
    and wr: "\<forall>c \<in> set calls. is_write c"
    and ids: "type = ovFileFullWrite \<longrightarrow>
           (\<forall>c \<in> set calls. length (call_records c) < 2 ^ 32) \<and>
           ids_below 3435973836 (records_written calls)"
  shows "\<exists>file cnt. ovFile_session nw contents compressed type bs calls = Inr (file, cnt)"
proof -
  let ?f0 = "ovFile_ctor nw contents compressed type bs"
  have out0: "isOutput ?f0" using wt by (simp add: ctor_fields)
  have "olapsPerRead ?f0 \<noteq> None \<longrightarrow>
           (\<forall>c \<in> set calls. length (call_records c) < 2 ^ 32) \<and>
           ids_below 3435973836 ([] @ records_written calls)"
    using ids by (simp add: ctor_fields)
  from do_calls_returns[OF ctor_inv out0 ty wr this] obtain f where
    dc: "do_calls nw calls ?f0 = Inr f" by auto
  from do_calls_inv[OF ctor_inv ty, of contents compressed type bs] dc
  have inv: "handle_inv nw f (records_written calls)" and sc: "same_config ?f0 f" by simp_all
  have out: "isOutput f" using sc out0 by (simp add: same_config_def)
  show ?thesis using dtor_write[OF inv out] dc by (simp add: ovFile_session_def)
qed

subsection \<open>Reading from the start, filling the buffer\<close>

lemma records_written_batches: "records_written (map WriteOverlaps batches) = concat batches"
  by (induction batches) (simp_all add: records_written_def)

lemma ctor_read_inv:
  assumes rt: "type = ovFileNormal \<or> type = ovFileFull"
    and ty: "\<forall>ov \<in> set rs. dat_variant (dat ov) = nw"
  shows "read_inv nw (ovFile_ctor nw (encode_records (type = ovFileNormal) rs) compressed type bs) rs"
proof -
  let ?f = "ovFile_ctor nw (encode_records (type = ovFileNormal) rs) compressed type bs"
  have "in_buffer ?f = []" by (simp add: in_buffer_def ctor_fields)
  moreover have "unread ?f = encode_records (isNormal ?f) rs" using rt
    by (auto simp: unread_def ctor_fields)
  moreover have "\<not> isOutput ?f" using rt by (auto simp: ctor_fields is_write_type_def)
  ultimately show ?thesis using ctor_buffer_ok[of nw _ compressed type bs] ty
    by (simp add: read_inv_def)
qed

lemma readOverlap_data:
  assumes inv: "read_inv nw f (r # rs)"
  shows "\<exists>f'. readOverlap nw ov f = Inr (True, merge_record (isNormal f) ov r, f') \<and>
           read_inv nw f' rs \<and> same_config f f'"
proof -
  have "\<not> isOutput f" using inv by (simp add: read_inv_def)
  with read_record_data[OF inv, of ov] show ?thesis
    by (auto simp: readOverlap_def merge_record_def)
qed

lemma discard_overlaps_data:
  assumes "read_inv nw f rs" "k \<le> length rs"
  shows "\<exists>f'. discard_overlaps nw k tmp f = Inr f' \<and> read_inv nw f' (drop k rs) \<and> same_config f f'"
  using assms
proof (induction k arbitrary: f rs tmp)
  case 0
  then show ?case by (simp add: same_config_refl)
next
  case (Suc k)
  then obtain r rs' where rs: "rs = r # rs'" by (cases rs) auto
  from readOverlap_data[of nw f r rs' tmp] Suc.prems rs obtain f1 where
    ro: "readOverlap nw tmp f = Inr (True, merge_record (isNormal f) tmp r, f1)"
    and inv1: "read_inv nw f1 rs'" and sc1: "same_config f f1" by auto
  from Suc.IH[OF inv1, of "merge_record (isNormal f) tmp r"] Suc.prems(2) rs obtain f' where
    "discard_overlaps nw k (merge_record (isNormal f) tmp r) f1 = Inr f'"
    "read_inv nw f' (drop k rs')" "same_config f1 f'" by auto
  then show ?case using ro rs same_config_trans[OF sc1] by auto
qed


lemma read_inv_end:
  assumes "read_inv nw f []"
  shows "bufferLen f \<le> bufferPos f" and "length (file_words f) \<le> file_pos f div 4"
proof -
  from assms have e: "in_buffer f = []" "unread f = []" and b: "buffer_ok nw f"
    by (simp_all add: read_inv_def encode_records_def)
  from b have "bufferLen f \<le> length (buffer f)" by (simp add: buffer_ok_def)
  with e(1) show "bufferLen f \<le> bufferPos f" by (simp add: in_buffer_def)
  from e(2) show "length (file_words f) \<le> file_pos f div 4" by (simp add: unread_def)
qed

lemma read_all_reaches_end:
  assumes rt: "type = ovFileNormal \<or> type = ovFileFull"
    and ty: "\<forall>ov \<in> set rs. dat_variant (dat ov) = nw"
    and len: "length rs \<le> length dest"
  shows "\<exists>out f'.
           readOverlaps nw dest
             (ovFile_ctor nw (encode_records (type = ovFileNormal) rs) compressed type bs) =
             Inr (length rs, out, f') \<and>
           \<not> isOutput f' \<and> bufferLen f' \<le> bufferPos f' \<and>
           length (file_words f') \<le> file_pos f' div 4"
proof -
  let ?f0 = "ovFile_ctor nw (encode_records (type = ovFileNormal) rs) compressed type bs"
  have inv: "read_inv nw ?f0 rs" using rt ty by (rule ctor_read_inv)
  from readOverlaps_loop_data[OF inv, of dest] len obtain f' where
    l: "readOverlaps_loop nw dest ?f0 =
          Inr (map (\<lambda>(d, r). merge_record (isNormal ?f0) d r) (zip dest rs), f')"
    and inv': "read_inv nw f' []" by auto
  have "\<not> isOutput ?f0" "\<not> isOutput f'" using inv inv' by (simp_all add: read_inv_def)
  then show ?thesis using l len read_inv_end[OF inv'] by (simp add: readOverlaps_def min_def)
qed

lemma read_back_file:
  assumes rt: "type = ovFileNormal \<or> type = ovFileFull"
    and ty: "\<forall>ov \<in> set rs. dat_variant (dat ov) = nw"
  shows "\<exists>f'. readOverlaps nw dest
                (ovFile_ctor nw (encode_records (type = ovFileNormal) rs) compressed type bs) =
              Inr (min (length dest) (length rs),
                   map (\<lambda>(d, r). merge_record (type = ovFileNormal) d r) (zip dest rs) @
                     drop (length rs) dest, f')"
proof -
  let ?f0 = "ovFile_ctor nw (encode_records (type = ovFileNormal) rs) compressed type bs"
  have inv: "read_inv nw ?f0 rs" using rt ty by (rule ctor_read_inv)
  have nrm: "isNormal ?f0 = (type = ovFileNormal)" using rt by (auto simp: ctor_fields)
  have out0: "\<not> isOutput ?f0" using inv by (simp add: read_inv_def)
  from readOverlaps_loop_data[OF inv, of dest] obtain f' where
    l: "readOverlaps_loop nw dest ?f0 =
          Inr (map (\<lambda>(d, r). merge_record (type = ovFileNormal) d r) (zip dest rs), f')"
    using nrm by auto
  have "drop (min (length dest) (length rs)) dest = drop (length rs) dest"
    by (simp add: min_def)
  then show ?thesis using out0 l by (simp add: readOverlaps_def)
qed

section \<open>The claims\<close>

text \<open>
  Claim C5 (buffer alignment).  For every \<^verbatim>\<open>bufferSize\<close> passed to the constructor, and
  every build variant and file type, the capacity \<^verbatim>\<open>_bufferMax\<close> is divisible both by the
  width in words of a record of the normal format (1 + payload wire words) and by the
  width of a record of the full format (2 + payload wire words).
\<close>
theorem buffer_alignment:
  "(1 + wire_words nw) dvd bufferMax (ovFile_ctor nw contents compressed type bufferSize) \<and>
   (2 + wire_words nw) dvd bufferMax (ovFile_ctor nw contents compressed type bufferSize)"
  using ctor_bufferMax_dvd[of nw contents compressed type bufferSize] by (simp add: record_width_def)

text \<open>
  Claim C4 (minimum buffer capacity), as stated, asks for a capacity of at least 16 Ki
  words.  The constructor clamps the \<^verbatim>\<open>bufferSize\<close> argument to 16 Ki and then divides it
  by \<^verbatim>\<open>lcm * sizeof(uint32)\<close>: at \<^verbatim>\<open>bufferSize = 16384\<close> the capacity of the 5-word
  variant is 4032 words.
\<close>
theorem capacity_below_16Ki_counterexample:
  "bufferMax (ovFile_ctor NWORDS5 [] False ovFileNormalWrite 16384) = 4032 \<and>
   \<not> 16384 \<le> bufferMax (ovFile_ctor NWORDS5 [] False ovFileNormalWrite 16384)"
  by (simp add: ovFile_ctor_def ctor_bufferMax_def ctor_bufferSize_def ctor_lcm_def)

text \<open>
  Claim C4, amended.  The capacity is the product of the two record sizes in bytes,
  \<open>(4 + sizeof payload) * (8 + sizeof payload)\<close>, times the number of times four such
  products fit into \<open>max bufferSize 16384\<close>.  It is a positive multiple of the least
  common multiple of the two record widths in words, and four times the capacity is at
  most \<open>max bufferSize 16384\<close>.
\<close>
theorem capacity_value:
  "bufferMax (ovFile_ctor nw contents compressed type bufferSize) =
     (max 16384 (unat bufferSize) div (4 * ctor_lcm nw)) * ctor_lcm nw \<and>
   ctor_lcm nw = (4 + sizeof_ovOverlapDAT nw) * (8 + sizeof_ovOverlapDAT nw) \<and>
   lcm (1 + wire_words nw) (2 + wire_words nw)
     dvd bufferMax (ovFile_ctor nw contents compressed type bufferSize) \<and>
   0 < bufferMax (ovFile_ctor nw contents compressed type bufferSize) \<and>
   4 * bufferMax (ovFile_ctor nw contents compressed type bufferSize) \<le> max 16384 (unat bufferSize)"
proof -
  let ?m = "bufferMax (ovFile_ctor nw contents compressed type bufferSize)"
  have m: "?m = (max 16384 (unat bufferSize) div (4 * ctor_lcm nw)) * ctor_lcm nw"
    by (simp add: ctor_fields ctor_bufferMax_def ctor_bufferSize_nat mult.commute)
  have "(1 + wire_words nw) dvd ?m" "(2 + wire_words nw) dvd ?m"
    using ctor_bufferMax_dvd[of nw contents compressed type bufferSize] by (simp_all add: record_width_def)
  then have l: "lcm (1 + wire_words nw) (2 + wire_words nw) dvd ?m" by (rule lcm_least)
  have p: "0 < ?m" using ctor_bufferMax_pos[of nw bufferSize] by (simp add: ctor_fields)
  have "4 * ?m = (max 16384 (unat bufferSize) div (4 * ctor_lcm nw)) * (4 * ctor_lcm nw)"
    unfolding m by simp
  also have "\<dots> \<le> max 16384 (unat bufferSize)" by (rule div_times_less_eq_dividend)
  finally have "4 * ?m \<le> max 16384 (unat bufferSize)" .
  with m l p show ?thesis by (simp add: ctor_lcm_def)
qed

text \<open>
  Claim C9 (the byte stream after its end).  Once the end-of-stream flag of a
  \<^verbatim>\<open>bzipBuffer\<close> is set, \<^verbatim>\<open>next()\<close> returns true and leaves the stream as it is, whatever
  \<^verbatim>\<open>fillBuffer\<close> does; so does any number of further calls, and \<^verbatim>\<open>tell()\<close> and \<^verbatim>\<open>eof()\<close>
  report what they reported before.
\<close>
theorem next_after_end_of_stream:
  "eof_flag b \<Longrightarrow>
     bz_next fillBuffer b = (True, b) \<and>
     bz_next_times fillBuffer n b = (replicate n True, b) \<and>
     bz_tell (snd (bz_next_times fillBuffer n b)) = bz_tell b \<and>
     bz_eof (snd (bz_next_times fillBuffer n b))"
  by (simp add: bz_next_times_eof bz_next_def bz_eof_def)

theorem next_after_end_of_stream_witness:
  "eof_flag \<lparr>filePos = 7, eof_flag = True, bzip2outPos = 3, avail_out = 3, bzip2out = [1, 2, 3]\<rparr> \<and>
   bz_next (\<lambda>b. b\<lparr>eof_flag := False\<rparr>)
     \<lparr>filePos = 7, eof_flag = True, bzip2outPos = 3, avail_out = 3, bzip2out = [1, 2, 3]\<rparr> =
     (True, \<lparr>filePos = 7, eof_flag = True, bzip2outPos = 3, avail_out = 3, bzip2out = [1, 2, 3]\<rparr>) \<and>
   bz_tell (snd (bz_next_times (\<lambda>b. b\<lparr>eof_flag := False\<rparr>) 3
     \<lparr>filePos = 7, eof_flag = True, bzip2outPos = 3, avail_out = 3, bzip2out = [1, 2, 3]\<rparr>)) = 7"
  using next_after_end_of_stream
    [of "\<lparr>filePos = 7, eof_flag = True, bzip2outPos = 3, avail_out = 3, bzip2out = [1, 2, 3]\<rparr>"
        "\<lambda>b. b\<lparr>eof_flag := False\<rparr>" 3]
  by (simp add: bz_tell_def)

text \<open>
  Claim C2 (serialization of the count index).  For a handle of type \<^verbatim>\<open>ovFileFullWrite\<close>
  and any sequence of calls after which the destructor runs, the counts file is the word
  \<open>lastId + 1\<close>, where \<open>lastId\<close> is the largest identifier in the records written by
  \<^verbatim>\<open>writeOverlap\<close> and \<^verbatim>\<open>writeOverlaps\<close>, followed by exactly \<open>lastId + 1\<close> entries; the
  entry at index \<open>i\<close> is the number of appearances of \<open>i\<close> as \<^verbatim>\<open>a_iid\<close> or \<^verbatim>\<open>b_iid\<close>, held
  in 32 bits.  The second conjunct says when the calls and the destructor do return:
  every call is a write, every batch is shorter than \<open>2 ^ 32\<close> and no identifier exceeds
  3435973836, so that the growth loop of the index never wraps.
\<close>
theorem count_index_serialized:
  assumes ty: "\<forall>ov \<in> set (records_written calls). dat_variant (dat ov) = nw"
  shows "(\<forall>fl cnt.
            ovFile_session nw contents compressed ovFileFullWrite bufferSize calls = Inr (fl, cnt) \<longrightarrow>
            (\<exists>entries. cnt = Some ((largest_id (records_written calls) + 1) # entries) \<and>
               length entries = unat (largest_id (records_written calls)) + 1 \<and>
               (\<forall>i \<le> largest_id (records_written calls).
                   entries ! unat i = of_nat (appearances i (records_written calls))))) \<and>
         ((\<forall>c \<in> set calls. is_write c \<and> length (call_records c) < 2 ^ 32) \<and>
          ids_below 3435973836 (records_written calls) \<longrightarrow>
          (\<exists>fl cnt.
             ovFile_session nw contents compressed ovFileFullWrite bufferSize calls = Inr (fl, cnt)))"
proof (intro conjI allI impI)
  fix fl cnt
  assume "ovFile_session nw contents compressed ovFileFullWrite bufferSize calls = Inr (fl, cnt)"
  from session_write(3)[OF _ ty this]
  show "\<exists>entries. cnt = Some ((largest_id (records_written calls) + 1) # entries) \<and>
               length entries = unat (largest_id (records_written calls)) + 1 \<and>
               (\<forall>i \<le> largest_id (records_written calls).
                   entries ! unat i = of_nat (appearances i (records_written calls)))"
    by (simp add: is_write_type_def)
next
  assume "(\<forall>c \<in> set calls. is_write c \<and> length (call_records c) < 2 ^ 32) \<and>
          ids_below 3435973836 (records_written calls)"
  then show "\<exists>fl cnt.
             ovFile_session nw contents compressed ovFileFullWrite bufferSize calls = Inr (fl, cnt)"
    using ty by (intro session_returns) (auto simp: is_write_type_def)
qed

theorem count_index_serialized_witness:
  "list_all (\<lambda>ov. dat_variant (dat ov) = NWORDS5)
     (records_written
       [WriteOverlap \<lparr>a_iid = 0, b_iid = 1, dat = DAT5 1 2 3 4 5\<rparr>,
        WriteOverlaps [\<lparr>a_iid = 5, b_iid = 5, dat = DAT5 0 0 0 0 0\<rparr>,
                       \<lparr>a_iid = 1, b_iid = 3, dat = DAT5 9 9 9 9 9\<rparr>]]) \<and>
   (\<exists>fl entries.
      ovFile_session NWORDS5 [] False ovFileFullWrite 0
        [WriteOverlap \<lparr>a_iid = 0, b_iid = 1, dat = DAT5 1 2 3 4 5\<rparr>,
         WriteOverlaps [\<lparr>a_iid = 5, b_iid = 5, dat = DAT5 0 0 0 0 0\<rparr>,
                        \<lparr>a_iid = 1, b_iid = 3, dat = DAT5 9 9 9 9 9\<rparr>]] =
        Inr (fl, Some (6 # entries)) \<and>
      length entries = 6 \<and> entries ! 0 = 1 \<and> entries ! 1 = 2 \<and> entries ! 2 = 0 \<and>
      entries ! 3 = 1 \<and> entries ! 4 = 0 \<and> entries ! 5 = 2)"
proof -
  let ?calls = "[WriteOverlap \<lparr>a_iid = 0, b_iid = 1, dat = DAT5 1 2 3 4 5\<rparr>,
        WriteOverlaps [\<lparr>a_iid = 5, b_iid = 5, dat = DAT5 0 0 0 0 0\<rparr>,
                       \<lparr>a_iid = 1, b_iid = 3, dat = DAT5 9 9 9 9 9\<rparr>]]"
  have ty: "\<forall>ov \<in> set (records_written ?calls). dat_variant (dat ov) = NWORDS5"
    by (simp add: records_written_def)
  have lg: "largest_id (records_written ?calls) = 5"
    by (simp add: records_written_def largest_id_def)
  note t = count_index_serialized[OF ty, of "[]" False 0]
  have "(\<forall>c \<in> set ?calls. is_write c \<and> length (call_records c) < 2 ^ 32) \<and>
        ids_below 3435973836 (records_written ?calls)"
    by (simp add: records_written_def ids_below_def)
  with t obtain fl cnt where s: "ovFile_session NWORDS5 [] False ovFileFullWrite 0 ?calls = Inr (fl, cnt)"
    by blast
  with t lg obtain entries where e: "cnt = Some (6 # entries)" "length entries = 6"
    "\<forall>i \<le> 5. entries ! unat i = of_nat (appearances i (records_written ?calls))"
    by fastforce
  have a: "i \<le> 5 \<Longrightarrow> entries ! unat i = of_nat (appearances i (records_written ?calls))"
    for i :: uint32 using e(3) by blast
  have "entries ! unat (0 :: uint32) = 1" "entries ! unat (1 :: uint32) = 2"
    "entries ! unat (2 :: uint32) = 0" "entries ! unat (3 :: uint32) = 1"
    "entries ! unat (4 :: uint32) = 0" "entries ! unat (5 :: uint32) = 2"
    using a[of 0] a[of 1] a[of 2] a[of 3] a[of 4] a[of 5]
    by (simp_all add: appearances_def records_written_def)
  then show ?thesis using ty s e(1,2) by (simp add: list_all_iff)
qed

text \<open>
  Claim C3 (header of the counts file), as stated, gives the header as \<open>lastId + 2\<close>.
  After writing the pairs (0, 1) and (5, 5) the header is 6, while the largest
  identifier plus two is 7.
\<close>
theorem counts_header_counterexample:
  "hd (counts_file (ovFile_session NWORDS5 [] False ovFileFullWrite 0
         [WriteOverlap \<lparr>a_iid = 0, b_iid = 1, dat = DAT5 0 0 0 0 0\<rparr>,
          WriteOverlap \<lparr>a_iid = 5, b_iid = 5, dat = DAT5 0 0 0 0 0\<rparr>])) = 6 \<and>
   largest_id (records_written
         [WriteOverlap \<lparr>a_iid = 0, b_iid = 1, dat = DAT5 0 0 0 0 0\<rparr>,
          WriteOverlap \<lparr>a_iid = 5, b_iid = 5, dat = DAT5 0 0 0 0 0\<rparr>]) + 2 = 7"
proof -
  let ?calls = "[WriteOverlap \<lparr>a_iid = 0, b_iid = 1, dat = DAT5 0 0 0 0 0\<rparr>,
          WriteOverlap \<lparr>a_iid = 5, b_iid = 5, dat = DAT5 0 0 0 0 0\<rparr>]"
  have ty: "\<forall>ov \<in> set (records_written ?calls). dat_variant (dat ov) = NWORDS5"
    by (simp add: records_written_def)
  have lg: "largest_id (records_written ?calls) = 5"
    by (simp add: records_written_def largest_id_def)
  have "\<exists>fl cnt. ovFile_session NWORDS5 [] False ovFileFullWrite 0 ?calls = Inr (fl, cnt)"
    using ty by (intro session_returns) (simp_all add: is_write_type_def records_written_def ids_below_def)
  then obtain fl cnt where s: "ovFile_session NWORDS5 [] False ovFileFullWrite 0 ?calls = Inr (fl, cnt)"
    by blast
  from session_write(3)[OF _ ty s] lg obtain entries where "cnt = Some (6 # entries)"
    by (auto simp: is_write_type_def)
  with s lg show ?thesis by (simp add: counts_file_def)
qed

text \<open>
  Claim C3, amended.  For a handle of type \<^verbatim>\<open>ovFileFullWrite\<close>, the first word of the
  counts file is the largest identifier written plus one: \<^verbatim>\<open>_olapsPerReadLast\<close> holds the
  largest identifier and is incremented once before it is written.
\<close>
theorem counts_header_value:
  assumes ty: "\<forall>ov \<in> set (records_written calls). dat_variant (dat ov) = nw"
    and s: "ovFile_session nw contents compressed ovFileFullWrite bufferSize calls = Inr (fl, cnt)"
  shows "counts_file (Inr (fl, cnt)) \<noteq> [] \<and>
         hd (counts_file (Inr (fl, cnt))) = largest_id (records_written calls) + 1"
  using session_write(3)[OF _ ty s] by (auto simp: is_write_type_def counts_file_def)

theorem counts_header_value_witness:
  "list_all (\<lambda>ov. dat_variant (dat ov) = NWORDS3)
     (records_written [WriteOverlap \<lparr>a_iid = 7, b_iid = 2, dat = DAT3 1 2 3\<rparr>]) \<and>
   ovFile_session NWORDS3 [] False ovFileFullWrite 0
      [WriteOverlap \<lparr>a_iid = 7, b_iid = 2, dat = DAT3 1 2 3\<rparr>] =
     Inr (projr (ovFile_session NWORDS3 [] False ovFileFullWrite 0
            [WriteOverlap \<lparr>a_iid = 7, b_iid = 2, dat = DAT3 1 2 3\<rparr>])) \<and>
   hd (counts_file (ovFile_session NWORDS3 [] False ovFileFullWrite 0
      [WriteOverlap \<lparr>a_iid = 7, b_iid = 2, dat = DAT3 1 2 3\<rparr>])) = 8"
proof -
  let ?calls = "[WriteOverlap \<lparr>a_iid = 7, b_iid = 2, dat = DAT3 1 2 3\<rparr>]"
  let ?s = "ovFile_session NWORDS3 [] False ovFileFullWrite 0 ?calls"
  have ty: "\<forall>ov \<in> set (records_written ?calls). dat_variant (dat ov) = NWORDS3"
    by (simp add: records_written_def)
  have lg: "largest_id (records_written ?calls) = 7"
    by (simp add: records_written_def largest_id_def)
  have "\<exists>fl cnt. ?s = Inr (fl, cnt)"
    using ty by (intro session_returns) (simp_all add: is_write_type_def records_written_def ids_below_def)
  then obtain fl cnt where s: "?s = Inr (fl, cnt)" by blast
  from counts_header_value[OF ty s] lg s ty show ?thesis by (simp add: list_all_iff)
qed

text \<open>
  Claim C1 (round trip), as stated, has the records read equal to the records written for
  either format.  A handle of the normal format stores \<^verbatim>\<open>b_iid\<close> and the payload only,
  and a read assigns no \<^verbatim>\<open>a_iid\<close>: a record written with \<^verbatim>\<open>a_iid = 7\<close> leaves the file
  \<open>[2, 1, 2, 3, 4, 5]\<close> and comes back, in a slot that held \<^verbatim>\<open>a_iid = 0\<close>, with
  \<^verbatim>\<open>a_iid = 0\<close>.
\<close>
theorem roundtrip_normal_first_id_counterexample:
  "ovFile_session NWORDS5 [] False ovFileNormalWrite 0
     [WriteOverlaps [\<lparr>a_iid = 7, b_iid = 2, dat = DAT5 1 2 3 4 5\<rparr>]] =
     Inr ([2, 1, 2, 3, 4, 5], None) \<and>
   \<not> isl (readOverlaps NWORDS5 [\<lparr>a_iid = 0, b_iid = 0, dat = DAT5 0 0 0 0 0\<rparr>]
            (ovFile_ctor NWORDS5 [2, 1, 2, 3, 4, 5] False ovFileNormal 0)) \<and>
   fst (projr (readOverlaps NWORDS5 [\<lparr>a_iid = 0, b_iid = 0, dat = DAT5 0 0 0 0 0\<rparr>]
            (ovFile_ctor NWORDS5 [2, 1, 2, 3, 4, 5] False ovFileNormal 0))) = 1 \<and>
   fst (snd (projr (readOverlaps NWORDS5 [\<lparr>a_iid = 0, b_iid = 0, dat = DAT5 0 0 0 0 0\<rparr>]
            (ovFile_ctor NWORDS5 [2, 1, 2, 3, 4, 5] False ovFileNormal 0)))) =
     [\<lparr>a_iid = 0, b_iid = 2, dat = DAT5 1 2 3 4 5\<rparr>] \<and>
   fst (snd (projr (readOverlaps NWORDS5 [\<lparr>a_iid = 0, b_iid = 0, dat = DAT5 0 0 0 0 0\<rparr>]
            (ovFile_ctor NWORDS5 [2, 1, 2, 3, 4, 5] False ovFileNormal 0)))) \<noteq>
     [\<lparr>a_iid = 7, b_iid = 2, dat = DAT5 1 2 3 4 5\<rparr>]"
proof -
  let ?r = "\<lparr>a_iid = 7, b_iid = 2, dat = DAT5 1 2 3 4 5\<rparr>"
  let ?d = "\<lparr>a_iid = 0, b_iid = 0, dat = DAT5 0 0 0 0 0\<rparr>"
  let ?calls = "[WriteOverlaps [?r]]"
  have wt: "is_write_type ovFileNormalWrite" by (simp add: is_write_type_def)
  have ty: "\<forall>ov \<in> set (records_written ?calls). dat_variant (dat ov) = NWORDS5"
    by (simp add: records_written_def)
  have "\<exists>fl cnt. ovFile_session NWORDS5 [] False ovFileNormalWrite 0 ?calls = Inr (fl, cnt)"
    using wt ty by (intro session_returns) simp_all
  then obtain fl cnt where
    s: "ovFile_session NWORDS5 [] False ovFileNormalWrite 0 ?calls = Inr (fl, cnt)" by blast
  from session_write(1)[OF wt ty s] have fl: "fl = [2, 1, 2, 3, 4, 5]"
    by (simp add: records_written_def encode_records_def record_words_def)
  from session_write(2)[OF wt ty s] have cnt: "cnt = None" by simp
  have enc: "encode_records (ovFileNormal = ovFileNormal) [?r] = [2, 1, 2, 3, 4, 5]"
    by (simp add: encode_records_def record_words_def)
  have "\<forall>ov \<in> set [?r]. dat_variant (dat ov) = NWORDS5" by simp
  from read_back_file[OF _ this, of ovFileNormal "[?d]" False 0] enc obtain f' where
    "readOverlaps NWORDS5 [?d] (ovFile_ctor NWORDS5 [2, 1, 2, 3, 4, 5] False ovFileNormal 0) =
       Inr (1, [\<lparr>a_iid = 0, b_iid = 2, dat = DAT5 1 2 3 4 5\<rparr>], f')"
    by (auto simp: merge_record_def)
  then show ?thesis using s fl cnt by simp
qed

text \<open>
  Claim C1, amended.  Records written in batches by \<^verbatim>\<open>writeOverlaps\<close> on a handle of any
  writing type, flushed by the destructor, and read back by \<^verbatim>\<open>readOverlaps\<close> on a handle
  of the reading type of the same format (any buffer sizes on both sides) come back in
  order: the number loaded is the smaller of the number of slots and the number of
  records, and each loaded slot holds the \<^verbatim>\<open>b_iid\<close> and the payload that were written, the
  64-bit payload words of the 3-word variant included.  In the full format the slot
  holds the \<^verbatim>\<open>a_iid\<close> written as well, so the records read are the records written; in the
  normal format \<^verbatim>\<open>a_iid\<close> is not on disk and the slot keeps the value it had.  The second
  conjunct says when the writing session returns: always without a count index, and with
  it under the bounds of claim C2.
\<close>
theorem write_read_roundtrip:
  assumes wt: "is_write_type wtype"
    and ty: "\<forall>ov \<in> set (concat batches). dat_variant (dat ov) = nw"
  shows "(\<forall>fl cnt.
            ovFile_session nw contents0 compressed0 wtype bufferSize1 (map WriteOverlaps batches) =
              Inr (fl, cnt) \<longrightarrow>
            (\<exists>out f'.
               readOverlaps nw dest (ovFile_ctor nw fl compressed (reader_type wtype) bufferSize2) =
                 Inr (min (length dest) (length (concat batches)), out, f') \<and>
               out = map (\<lambda>(d, r). merge_record (wtype = ovFileNormalWrite) d r)
                       (zip dest (concat batches)) @ drop (length (concat batches)) dest \<and>
               (wtype \<noteq> ovFileNormalWrite \<longrightarrow> length dest = length (concat batches) \<longrightarrow>
                  out = concat batches) \<and>
               (\<forall>i < min (length dest) (length (concat batches)).
                  b_iid (out ! i) = b_iid (concat batches ! i) \<and>
                  dat (out ! i) = dat (concat batches ! i) \<and>
                  a_iid (out ! i) =
                    (if wtype = ovFileNormalWrite then a_iid (dest ! i)
                     else a_iid (concat batches ! i))))) \<and>
         ((wtype = ovFileFullWrite \<longrightarrow>
             (\<forall>b \<in> set batches. length b < 2 ^ 32) \<and> ids_below 3435973836 (concat batches)) \<longrightarrow>
          (\<exists>fl cnt.
             ovFile_session nw contents0 compressed0 wtype bufferSize1 (map WriteOverlaps batches) =
               Inr (fl, cnt)))"
proof (intro conjI allI impI)
  let ?rs = "concat batches"
  let ?calls = "map WriteOverlaps batches"
  let ?n = "wtype = ovFileNormalWrite"
  have ty': "\<forall>ov \<in> set (records_written ?calls). dat_variant (dat ov) = nw"
    using ty by (simp add: records_written_batches)
  {
    assume "wtype = ovFileFullWrite \<longrightarrow>
             (\<forall>b \<in> set batches. length b < 2 ^ 32) \<and> ids_below 3435973836 ?rs"
    then show "\<exists>fl cnt. ovFile_session nw contents0 compressed0 wtype bufferSize1 ?calls = Inr (fl, cnt)"
      using wt ty' by (intro session_returns) (auto simp: records_written_batches)
  }
  fix fl cnt
  assume s: "ovFile_session nw contents0 compressed0 wtype bufferSize1 ?calls = Inr (fl, cnt)"
  from session_write(1)[OF wt ty' s] have fl: "fl = encode_records ?n ?rs"
    by (simp add: records_written_batches)
  let ?rt = "reader_type wtype"
  let ?f0 = "ovFile_ctor nw fl compressed ?rt bufferSize2"
  have rt: "?rt = ovFileNormal \<or> ?rt = ovFileFull" by (simp add: reader_type_def)
  have rn: "(?rt = ovFileNormal) = ?n" using wt by (auto simp: reader_type_def is_write_type_def)
  have inv: "read_inv nw ?f0 ?rs" using ctor_read_inv[OF rt ty, of compressed bufferSize2] fl rn by simp
  have nrm: "isNormal ?f0 = ?n" using rn wt by (auto simp: ctor_fields reader_type_def is_write_type_def)
  have out0: "\<not> isOutput ?f0" using inv by (simp add: read_inv_def)
  from readOverlaps_loop_data[OF inv, of dest] obtain f' where
    l: "readOverlaps_loop nw dest ?f0 = Inr (map (\<lambda>(d, r). merge_record ?n d r) (zip dest ?rs), f')"
    using nrm by auto
  let ?loaded = "map (\<lambda>(d, r). merge_record ?n d r) (zip dest ?rs)"
  let ?out = "?loaded @ drop (length ?rs) dest"
  have ll: "length ?loaded = min (length dest) (length ?rs)" by simp
  have dr: "drop (min (length dest) (length ?rs)) dest = drop (length ?rs) dest"
    by (simp add: min_def)
  have res: "readOverlaps nw dest ?f0 = Inr (min (length dest) (length ?rs), ?out, f')"
    using out0 l dr by (simp add: readOverlaps_def)
  have full: "?out = ?rs" if "\<not> ?n" "length dest = length ?rs"
  proof -
    have "?loaded = map snd (zip dest ?rs)"
      using that(1) by (simp add: merge_record_def case_prod_unfold)
    then show ?thesis using that(2) by simp
  qed
  have each: "b_iid (?out ! i) = b_iid (?rs ! i) \<and> dat (?out ! i) = dat (?rs ! i) \<and>
        a_iid (?out ! i) = (if ?n then a_iid (dest ! i) else a_iid (?rs ! i))"
    if "i < min (length dest) (length ?rs)" for i
  proof -
    have "?out ! i = ?loaded ! i" using that by (simp add: nth_append)
    also have "\<dots> = merge_record ?n (dest ! i) (?rs ! i)" using that by simp
    finally show ?thesis by (simp add: merge_record_def)
  qed
  show "\<exists>out f'.
           readOverlaps nw dest ?f0 = Inr (min (length dest) (length ?rs), out, f') \<and>
           out = ?loaded @ drop (length ?rs) dest \<and>
           (wtype \<noteq> ovFileNormalWrite \<longrightarrow> length dest = length ?rs \<longrightarrow> out = ?rs) \<and>
           (\<forall>i < min (length dest) (length ?rs).
              b_iid (out ! i) = b_iid (?rs ! i) \<and> dat (out ! i) = dat (?rs ! i) \<and>
              a_iid (out ! i) = (if ?n then a_iid (dest ! i) else a_iid (?rs ! i)))"
    using res full each by (intro exI[of _ ?out] exI[of _ f']) blast
qed

theorem write_read_roundtrip_witness:
  "is_write_type ovFileFullWrite \<and>
   list_all (\<lambda>ov. dat_variant (dat ov) = NWORDS3)
     (concat [ [\<lparr>a_iid = 1, b_iid = 2, dat = DAT3 0xFFFFFFFF00000001 11 12\<rparr>,
                            \<lparr>a_iid = 3, b_iid = 4, dat = DAT3 20 0x8000000080000000 22\<rparr>],
                           [\<lparr>a_iid = 5, b_iid = 6, dat = DAT3 30 31 0xFFFFFFFFFFFFFFFF\<rparr>]]) \<and>
   (\<exists>fl cnt f'.
      ovFile_session NWORDS3 [] False ovFileFullWrite 0
        (map WriteOverlaps [ [\<lparr>a_iid = 1, b_iid = 2, dat = DAT3 0xFFFFFFFF00000001 11 12\<rparr>,
                             \<lparr>a_iid = 3, b_iid = 4, dat = DAT3 20 0x8000000080000000 22\<rparr>],
                            [\<lparr>a_iid = 5, b_iid = 6, dat = DAT3 30 31 0xFFFFFFFFFFFFFFFF\<rparr>]]) =
        Inr (fl, cnt) \<and>
      readOverlaps NWORDS3 (replicate 3 \<lparr>a_iid = 0, b_iid = 0, dat = DAT3 0 0 0\<rparr>)
          (ovFile_ctor NWORDS3 fl False (reader_type ovFileFullWrite) 0) =
        Inr (3, [\<lparr>a_iid = 1, b_iid = 2, dat = DAT3 0xFFFFFFFF00000001 11 12\<rparr>,
                 \<lparr>a_iid = 3, b_iid = 4, dat = DAT3 20 0x8000000080000000 22\<rparr>,
                 \<lparr>a_iid = 5, b_iid = 6, dat = DAT3 30 31 0xFFFFFFFFFFFFFFFF\<rparr>], f'))"
proof -
  let ?bs = "[ [\<lparr>a_iid = 1, b_iid = 2, dat = DAT3 0xFFFFFFFF00000001 11 12\<rparr>,
               \<lparr>a_iid = 3, b_iid = 4, dat = DAT3 20 0x8000000080000000 22\<rparr>],
              [\<lparr>a_iid = 5, b_iid = 6, dat = DAT3 30 31 0xFFFFFFFFFFFFFFFF\<rparr>]]"
  let ?dest = "replicate 3 \<lparr>a_iid = 0, b_iid = 0, dat = DAT3 0 0 0\<rparr>"
  have wt: "is_write_type ovFileFullWrite" by (simp add: is_write_type_def)
  have ty: "\<forall>ov \<in> set (concat ?bs). dat_variant (dat ov) = NWORDS3" by simp
  note t = write_read_roundtrip[OF wt ty, of "[]" False 0 ?dest False 0]
  have "(\<forall>b \<in> set ?bs. length b < 2 ^ 32) \<and> ids_below 3435973836 (concat ?bs)"
    by (simp add: ids_below_def)
  with t obtain fl cnt where
    s: "ovFile_session NWORDS3 [] False ovFileFullWrite 0 (map WriteOverlaps ?bs) = Inr (fl, cnt)"
    by blast
  with t obtain out f' where
    "readOverlaps NWORDS3 ?dest (ovFile_ctor NWORDS3 fl False (reader_type ovFileFullWrite) 0) =
       Inr (min (length ?dest) (length (concat ?bs)), out, f')"
    "length ?dest = length (concat ?bs) \<longrightarrow> out = concat ?bs"
    by (fastforce simp: is_write_type_def)
  then show ?thesis using wt ty s by auto
qed

text \<open>
  Claim C7 (end of data).  On a reading handle whose buffer is consumed and whose file is
  at its end, \<^verbatim>\<open>readOverlap\<close> returns false and the caller's record unchanged, and so does
  a second call; neither is a failure.  Records returned by earlier calls are values of
  their own, which no later call can reach.  A handle that has delivered every record of
  its file is in this state (\<open>read_all_reaches_end\<close>).
\<close>
theorem read_past_end:
  assumes "\<not> isOutput f" "bufferLen f \<le> bufferPos f" "length (file_words f) \<le> file_pos f div 4"
  shows "readOverlap nw overlap f = Inr (False, overlap, f\<lparr>bufferPos := 0, bufferLen := 0\<rparr>) \<and>
         readOverlap nw overlap' (f\<lparr>bufferPos := 0, bufferLen := 0\<rparr>) =
           Inr (False, overlap', f\<lparr>bufferPos := 0, bufferLen := 0\<rparr>)"
  using assms
  by (simp add: readOverlap_def read_record_def readBuffer_def AS_UTL_safeRead_def Let_def)

theorem read_past_end_witness:
  "\<not> isOutput (ovFile_ctor NWORDS5 [] False ovFileNormal 0) \<and>
   bufferLen (ovFile_ctor NWORDS5 [] False ovFileNormal 0)
     \<le> bufferPos (ovFile_ctor NWORDS5 [] False ovFileNormal 0) \<and>
   length (file_words (ovFile_ctor NWORDS5 [] False ovFileNormal 0))
     \<le> file_pos (ovFile_ctor NWORDS5 [] False ovFileNormal 0) div 4 \<and>
   readOverlap NWORDS5 \<lparr>a_iid = 1, b_iid = 2, dat = DAT5 3 4 5 6 7\<rparr>
       (ovFile_ctor NWORDS5 [] False ovFileNormal 0) =
     Inr (False, \<lparr>a_iid = 1, b_iid = 2, dat = DAT5 3 4 5 6 7\<rparr>,
          (ovFile_ctor NWORDS5 [] False ovFileNormal 0)\<lparr>bufferPos := 0, bufferLen := 0\<rparr>)"
proof -
  let ?f = "ovFile_ctor NWORDS5 [] False ovFileNormal 0"
  have h: "\<not> isOutput ?f" "bufferLen ?f \<le> bufferPos ?f" "length (file_words ?f) \<le> file_pos ?f div 4"
    by (simp_all add: ctor_fields is_write_type_def)
  from read_past_end[OF h, of NWORDS5 "\<lparr>a_iid = 1, b_iid = 2, dat = DAT5 3 4 5 6 7\<rparr>"] h
  show ?thesis by simp
qed

text \<open>
  Claim C10 (buffer safety).  From any handle the constructor builds, no sequence of calls
  of \<^verbatim>\<open>writeOverlap\<close>, \<^verbatim>\<open>writeOverlaps\<close>, \<^verbatim>\<open>readOverlap\<close>, \<^verbatim>\<open>readOverlaps\<close> and
  \<^verbatim>\<open>seekOverlap\<close> indexes the buffer (or the count index) at or beyond its allocation, and
  after the calls the fill length is at most the capacity.  The records written are of
  the build's payload type.
\<close>
theorem buffer_safety:
  assumes ty: "\<forall>ov \<in> set (records_written calls). dat_variant (dat ov) = nw"
  shows "do_calls nw calls (ovFile_ctor nw contents compressed type bufferSize) \<noteq> Inl OutOfBounds \<and>
         (\<forall>f. do_calls nw calls (ovFile_ctor nw contents compressed type bufferSize) = Inr f \<longrightarrow>
              bufferLen f \<le> bufferMax f \<and> length (buffer f) = bufferMax f \<and>
              bufferMax f = bufferMax (ovFile_ctor nw contents compressed type bufferSize))"
  using do_calls_inv[OF ctor_inv ty, of contents compressed type bufferSize]
  by (auto simp: handle_inv_def buffer_ok_def same_config_def)

theorem buffer_safety_witness:
  "list_all (\<lambda>ov. dat_variant (dat ov) = NWORDS8)
     (records_written
       [WriteOverlap \<lparr>a_iid = 4, b_iid = 9, dat = DAT8 1 2 3 4 5 6 7 8\<rparr>,
        WriteOverlaps [\<lparr>a_iid = 200000, b_iid = 3, dat = DAT8 0 0 0 0 0 0 0 0\<rparr>]]) \<and>
   do_calls NWORDS8
       [WriteOverlap \<lparr>a_iid = 4, b_iid = 9, dat = DAT8 1 2 3 4 5 6 7 8\<rparr>,
        WriteOverlaps [\<lparr>a_iid = 200000, b_iid = 3, dat = DAT8 0 0 0 0 0 0 0 0\<rparr>]]
       (ovFile_ctor NWORDS8 [] False ovFileFullWrite 0) \<noteq> Inl OutOfBounds \<and>
   (\<exists>f. do_calls NWORDS8
       [WriteOverlap \<lparr>a_iid = 4, b_iid = 9, dat = DAT8 1 2 3 4 5 6 7 8\<rparr>,
        WriteOverlaps [\<lparr>a_iid = 200000, b_iid = 3, dat = DAT8 0 0 0 0 0 0 0 0\<rparr>]]
       (ovFile_ctor NWORDS8 [] False ovFileFullWrite 0) = Inr f \<and>
      bufferLen f \<le> bufferMax f \<and> length (buffer f) = bufferMax f)"
proof -
  let ?calls = "[WriteOverlap \<lparr>a_iid = 4, b_iid = 9, dat = DAT8 1 2 3 4 5 6 7 8\<rparr>,
        WriteOverlaps [\<lparr>a_iid = 200000, b_iid = 3, dat = DAT8 0 0 0 0 0 0 0 0\<rparr>]]"
  let ?f0 = "ovFile_ctor NWORDS8 [] False ovFileFullWrite 0"
  have ty: "\<forall>ov \<in> set (records_written ?calls). dat_variant (dat ov) = NWORDS8"
    by (simp add: records_written_def)
  have "\<exists>f. do_calls NWORDS8 ?calls ?f0 = Inr f"
    using ty by (intro do_calls_returns[OF ctor_inv])
      (simp_all add: ctor_fields is_write_type_def records_written_def ids_below_def)
  with buffer_safety[OF ty, of "[]" False ovFileFullWrite 0] ty show ?thesis
    by (auto simp: list_all_iff)
qed




text \<open>
  Claim C6 (seek).  On any handle reached from a reading handle over a file of the records
  \<open>rs\<close>: if the file is compressed, \<^verbatim>\<open>seekOverlap\<close> exits; otherwise it sets the file
  position to \<open>k\<close> times the record size in bytes and the buffer position to the fill
  length, and for \<open>k < length rs\<close> the next \<^verbatim>\<open>readOverlap\<close> returns true with record \<open>k\<close>,
  which is what \<^verbatim>\<open>readOverlap\<close> returns on a fresh handle after \<open>k\<close> records were read and
  discarded.
\<close>
theorem seek_then_read:
  assumes rt: "rtype = ovFileNormal \<or> rtype = ovFileFull"
    and ty: "\<forall>ov \<in> set rs. dat_variant (dat ov) = nw"
    and reach: "do_calls nw calls
                  (ovFile_ctor nw (encode_records (rtype = ovFileNormal) rs) compressed rtype bufferSize) =
                Inr f"
  shows "(compressed \<longrightarrow> seekOverlap nw k f = Inl Exit1) \<and>
         (\<not> compressed \<longrightarrow>
            seekOverlap nw k f =
              Inr (f\<lparr>file_pos := k * recordSize nw f, bufferPos := bufferLen f\<rparr>) \<and>
            (k < length rs \<longrightarrow>
               (\<exists>f2. readOverlap nw overlap
                        (f\<lparr>file_pos := k * recordSize nw f, bufferPos := bufferLen f\<rparr>) =
                      Inr (True, merge_record (rtype = ovFileNormal) overlap (rs ! k), f2)) \<and>
               (\<exists>f1 f3.
                  discard_overlaps nw k tmp
                    (ovFile_ctor nw (encode_records (rtype = ovFileNormal) rs) compressed rtype bufferSize') =
                    Inr f1 \<and>
                  readOverlap nw overlap f1 =
                    Inr (True, merge_record (rtype = ovFileNormal) overlap (rs ! k), f3))))"
proof -
  let ?n = "rtype = ovFileNormal"
  let ?c = "\<lambda>bs. ovFile_ctor nw (encode_records ?n rs) compressed rtype bs"
  have out0: "\<not> isOutput (?c bufferSize)" using rt by (auto simp: ctor_fields is_write_type_def)
  from read_handle_calls[OF ctor_inv out0 reach]
  have inv: "handle_inv nw f []" and sc: "same_config (?c bufferSize) f" by simp_all
  have fr: "\<not> isOutput f" "isNormal f = ?n" "isSeekable f = (\<not> compressed)"
    "file_words f = encode_records ?n rs"
    using sc rt by (auto simp: same_config_def ctor_fields is_write_type_def)
  have bok: "buffer_ok nw f" using inv by (simp add: handle_inv_def)
  have c: "compressed \<longrightarrow> seekOverlap nw k f = Inl Exit1" using fr by (simp add: seekOverlap_def)
  let ?f' = "f\<lparr>file_pos := k * recordSize nw f, bufferPos := bufferLen f\<rparr>"
  have u: "seekOverlap nw k f = Inr ?f'" if "\<not> compressed"
    using that fr by (simp add: seekOverlap_def)
  have r: "(\<exists>f2. readOverlap nw overlap ?f' = Inr (True, merge_record ?n overlap (rs ! k), f2)) \<and>
       (\<exists>f1 f3. discard_overlaps nw k tmp (?c bufferSize') = Inr f1 \<and>
          readOverlap nw overlap f1 = Inr (True, merge_record ?n overlap (rs ! k), f3))"
    if nc: "\<not> compressed" and k: "k < length rs"
  proof -
    have fw: "file_words f = encode_records (isNormal f) rs" using fr by simp
    have sk: "isSeekable f" using fr nc by simp
    have d: "drop k rs = rs ! k # drop (Suc k) rs" using k by (simp add: Cons_nth_drop_Suc)
    from seekOverlap_data(2)[OF bok fr(1) sk fw ty, of k] d
    have "read_inv nw ?f' (rs ! k # drop (Suc k) rs)" by simp
    from readOverlap_data[OF this, of overlap] fr
    have a: "\<exists>f2. readOverlap nw overlap ?f' = Inr (True, merge_record ?n overlap (rs ! k), f2)"
      by auto
    from discard_overlaps_data[OF ctor_read_inv[OF rt ty, of compressed bufferSize'], of k tmp] k d
    obtain f1 where f1: "discard_overlaps nw k tmp (?c bufferSize') = Inr f1"
      and i1: "read_inv nw f1 (rs ! k # drop (Suc k) rs)" and s1: "same_config (?c bufferSize') f1"
      by auto
    have "isNormal f1 = ?n" using s1 rt by (auto simp: same_config_def ctor_fields)
    with readOverlap_data[OF i1, of overlap] f1 a show ?thesis by auto
  qed
  from c u r show ?thesis by blast
qed

theorem seek_then_read_witness:
  "(ovFileFull = ovFileNormal \<or> ovFileFull = ovFileFull) \<and>
   list_all (\<lambda>ov. dat_variant (dat ov) = NWORDS3)
     [\<lparr>a_iid = 1, b_iid = 2, dat = DAT3 10 11 12\<rparr>,
                 \<lparr>a_iid = 3, b_iid = 4, dat = DAT3 20 21 22\<rparr>,
                 \<lparr>a_iid = 5, b_iid = 6, dat = DAT3 30 31 32\<rparr>] \<and>
   do_calls NWORDS3 []
     (ovFile_ctor NWORDS3
        (encode_records (ovFileFull = ovFileNormal)
           [\<lparr>a_iid = 1, b_iid = 2, dat = DAT3 10 11 12\<rparr>,
            \<lparr>a_iid = 3, b_iid = 4, dat = DAT3 20 21 22\<rparr>,
            \<lparr>a_iid = 5, b_iid = 6, dat = DAT3 30 31 32\<rparr>]) False ovFileFull 0) =
     Inr (ovFile_ctor NWORDS3
        (encode_records (ovFileFull = ovFileNormal)
           [\<lparr>a_iid = 1, b_iid = 2, dat = DAT3 10 11 12\<rparr>,
            \<lparr>a_iid = 3, b_iid = 4, dat = DAT3 20 21 22\<rparr>,
            \<lparr>a_iid = 5, b_iid = 6, dat = DAT3 30 31 32\<rparr>]) False ovFileFull 0) \<and>
   (\<exists>f1 f2. seekOverlap NWORDS3 2
       (ovFile_ctor NWORDS3
        (encode_records (ovFileFull = ovFileNormal)
           [\<lparr>a_iid = 1, b_iid = 2, dat = DAT3 10 11 12\<rparr>,
            \<lparr>a_iid = 3, b_iid = 4, dat = DAT3 20 21 22\<rparr>,
            \<lparr>a_iid = 5, b_iid = 6, dat = DAT3 30 31 32\<rparr>]) False ovFileFull 0) = Inr f1 \<and>
      file_pos f1 = 64 \<and>
      readOverlap NWORDS3 \<lparr>a_iid = 0, b_iid = 0, dat = DAT3 0 0 0\<rparr> f1 =
        Inr (True, \<lparr>a_iid = 5, b_iid = 6, dat = DAT3 30 31 32\<rparr>, f2))"
proof -
  let ?rs = "[\<lparr>a_iid = 1, b_iid = 2, dat = DAT3 10 11 12\<rparr>,
              \<lparr>a_iid = 3, b_iid = 4, dat = DAT3 20 21 22\<rparr>,
              \<lparr>a_iid = 5, b_iid = 6, dat = DAT3 30 31 32\<rparr>]"
  let ?f0 = "ovFile_ctor NWORDS3 (encode_records (ovFileFull = ovFileNormal) ?rs) False ovFileFull 0"
  have rt: "ovFileFull = ovFileNormal \<or> ovFileFull = ovFileFull" by simp
  have ty: "\<forall>ov \<in> set ?rs. dat_variant (dat ov) = NWORDS3" by simp
  have reach: "do_calls NWORDS3 [] ?f0 = Inr ?f0" by simp
  from seek_then_read[OF rt ty reach, of 2 "\<lparr>a_iid = 0, b_iid = 0, dat = DAT3 0 0 0\<rparr>"]
  obtain f2 where
    "seekOverlap NWORDS3 2 ?f0 = Inr (?f0\<lparr>file_pos := 2 * recordSize NWORDS3 ?f0, bufferPos := bufferLen ?f0\<rparr>)"
    "readOverlap NWORDS3 \<lparr>a_iid = 0, b_iid = 0, dat = DAT3 0 0 0\<rparr>
       (?f0\<lparr>file_pos := 2 * recordSize NWORDS3 ?f0, bufferPos := bufferLen ?f0\<rparr>) =
     Inr (True, \<lparr>a_iid = 5, b_iid = 6, dat = DAT3 30 31 32\<rparr>, f2)"
    by (auto simp: merge_record_def)
  moreover have "2 * recordSize NWORDS3 ?f0 = 64" by (simp add: recordSize_def ctor_fields)
  ultimately show ?thesis using ty reach by auto
qed

end
